theory Spec2Isabelle
  imports
    Main
    "HOL-Library.Char_ord"
    "HOL-Library.List_Lexorder"
    "HOL-Library.Sublist"
    "HOL-Library.Multiset"
begin

section \<open>Strings, errors and the library functions the package calls\<close>

text \<open>
  A Go string is a sequence of bytes: here a \<^typ>\<open>string\<close>, one \<^typ>\<open>char\<close> per byte.
  Go compares strings byte by byte, a proper prefix being the smaller one; that is the
  lexicographic order of \<open>List_Lexorder\<close> over the byte order of \<open>Char_ord\<close>.

  The package has two ways to stop: \<open>halt\<close>, which logs a message and exits, and a
  panic of the Go runtime where a slice is indexed out of range. Failures of the operating
  system (a disk that fills up, a file that disappears) are not modelled.
  Where the behaviour of the \<open>fmt\<close> library leaves the part that is modelled here, the
  outcome is \<open>Unmodelled\<close> (see \<open>keySpecsLoop\<close>).
\<close>

datatype error = Halt string | IndexOutOfRange | Unmodelled

subsection \<open>bufio.Reader.ReadString with the delimiter newline\<close>

text \<open>
  \<open>readString\<close> returns the bytes up to and including the first newline; when the
  input ends before a newline, it returns what is left together with \<open>io.EOF\<close>.
  The result is the record, the flag \<open>err == io.EOF\<close> and the rest of the input.
\<close>

fun readString :: "string \<Rightarrow> string \<times> bool \<times> string" where
  "readString [] = ([], True, [])"
| "readString (c # cs) =
     (if c = CHR 0x0A then ([c], False, cs)
      else (case readString cs of (record, eof, rest) \<Rightarrow> (c # record, eof, rest)))"

subsection \<open>strings.Trim, strings.TrimLeft\<close>

definition TrimLeft :: "string \<Rightarrow> string \<Rightarrow> string" where
  "TrimLeft s cutset = dropWhile (\<lambda>c. c \<in> set cutset) s"

definition Trim :: "string \<Rightarrow> string \<Rightarrow> string" where
  "Trim s cutset = rev (dropWhile (\<lambda>c. c \<in> set cutset) (rev (TrimLeft s cutset)))"

text \<open>The cut set of every call in the package: space, carriage return, newline.\<close>

definition blanks :: string where
  "blanks = [CHR 0x20, CHR 0x0D, CHR 0x0A]"

subsection \<open>UTF-8 sequences, as package utf8 delimits them\<close>

text \<open>
  \<open>utf8Lead b\<close> is what the table \<open>first\<close> of package utf8 holds for a lead byte
  \<open>b\<close>: the length of the sequence and the range the second byte must lie in. Bytes below
  0x80 and bytes that start no sequence have no entry; each of them is one rune.
\<close>

definition utf8Lead :: "nat \<Rightarrow> (nat \<times> nat \<times> nat) option" where
  "utf8Lead b =
     (if 0xC2 \<le> b \<and> b \<le> 0xDF then Some (2, 0x80, 0xBF)
      else if b = 0xE0 then Some (3, 0xA0, 0xBF)
      else if 0xE1 \<le> b \<and> b \<le> 0xEC then Some (3, 0x80, 0xBF)
      else if b = 0xED then Some (3, 0x80, 0x9F)
      else if 0xEE \<le> b \<and> b \<le> 0xEF then Some (3, 0x80, 0xBF)
      else if b = 0xF0 then Some (4, 0x90, 0xBF)
      else if 0xF1 \<le> b \<and> b \<le> 0xF3 then Some (4, 0x80, 0xBF)
      else if b = 0xF4 then Some (4, 0x80, 0x8F)
      else None)"

definition inByteRange :: "nat \<Rightarrow> nat \<Rightarrow> char \<Rightarrow> bool" where
  "inByteRange lo hi c = (lo \<le> (of_char c :: nat) \<and> (of_char c :: nat) \<le> hi)"

text \<open>The number of bytes \<open>utf8.DecodeRuneInString\<close> consumes: 1 for an invalid byte.\<close>

definition runeSize :: "string \<Rightarrow> nat" where
  "runeSize s =
     (case s of
        [] \<Rightarrow> 0
      | c # cs \<Rightarrow>
          (case utf8Lead (of_char c) of
             None \<Rightarrow> 1
           | Some (sz, lo, hi) \<Rightarrow>
               if length s < sz then 1
               else if \<not> inByteRange lo hi (s ! 1) then 1
               else if sz \<le> 2 then 2
               else if \<not> inByteRange 0x80 0xBF (s ! 2) then 1
               else if sz \<le> 3 then 3
               else if \<not> inByteRange 0x80 0xBF (s ! 3) then 1
               else 4))"

lemma runeSize_pos: "s \<noteq> [] \<Longrightarrow> 0 < runeSize s"
  by (cases s) (auto simp: runeSize_def split: option.splits)

text \<open>\<open>explode\<close> of package strings: the string cut into its UTF-8 sequences.\<close>

function explode :: "string \<Rightarrow> string list" where
  "explode s = (if s = [] then [] else take (runeSize s) s # explode (drop (runeSize s) s))"
  by pat_completeness auto
termination
  by (relation "measure length") (auto simp: runeSize_pos)

declare explode.simps [simp del]

text \<open>\<open>utf8.RuneCountInString\<close> counts the same sequences.\<close>

definition RuneCountInString :: "string \<Rightarrow> nat" where
  "RuneCountInString s = length (explode s)"

subsection \<open>strings.Split\<close>

text \<open>
  With a separator \<open>s0 # srest\<close> the text is cut at each occurrence of the separator,
  found from left to right; \<open>cur\<close> collects the field being read. With the empty
  separator \<open>strings.Split\<close> explodes the text.
\<close>

fun splitOn :: "char \<Rightarrow> string \<Rightarrow> string \<Rightarrow> string \<Rightarrow> string list" where
  "splitOn s0 srest cur [] = [cur]"
| "splitOn s0 srest cur (c # cs) =
     (if prefix (s0 # srest) (c # cs)
      then cur # splitOn s0 srest [] (drop (length srest) cs)
      else splitOn s0 srest (cur @ [c]) cs)"

definition Split :: "string \<Rightarrow> string \<Rightarrow> string list" where
  "Split s sep = (case sep of [] \<Rightarrow> explode s | s0 # srest \<Rightarrow> splitOn s0 srest [] s)"

subsection \<open>Decimal numbers: strconv.FormatInt, strconv.ParseInt, strconv.Atoi\<close>

definition digitChar :: "nat \<Rightarrow> char" where
  "digitChar d = char_of (48 + d)"

fun digitsOf :: "nat \<Rightarrow> string" where
  "digitsOf n = (if n < 10 then [digitChar n] else digitsOf (n div 10) @ [digitChar (n mod 10)])"

declare digitsOf.simps [simp del]

definition FormatInt :: "int \<Rightarrow> string" where
  "FormatInt i = (if i < 0 then CHR ''-'' # digitsOf (nat (- i)) else digitsOf (nat i))"

definition isDigit :: "char \<Rightarrow> bool" where
  "isDigit c = (48 \<le> (of_char c :: nat) \<and> (of_char c :: nat) \<le> 57)"

definition digitsVal :: "string \<Rightarrow> int" where
  "digitsVal ds = foldl (\<lambda>n c. 10 * n + (int (of_char c) - 48)) 0 ds"

text \<open>
  \<open>ParseInt s\<close> is \<open>strconv.ParseInt(s, 10, 64)\<close>, and \<open>strconv.Atoi\<close> on a 64-bit
  platform: an optional sign, then at least one decimal digit and nothing else, the value
  within the range of int64. \<open>None\<close> stands for the error it returns otherwise.
\<close>

definition ParseInt :: "string \<Rightarrow> int option" where
  "ParseInt s =
     (let neg = (s \<noteq> [] \<and> hd s = CHR ''-'');
          ds = (if s \<noteq> [] \<and> (hd s = CHR ''+'' \<or> hd s = CHR ''-'') then tl s else s)
      in if ds = [] \<or> \<not> list_all isDigit ds then None
         else if neg then (if digitsVal ds \<le> 2 ^ 63 then Some (- digitsVal ds) else None)
         else (if digitsVal ds < 2 ^ 63 then Some (digitsVal ds) else None))"

subsection \<open>fmt.Sprintf with a width\<close>

text \<open>
  \<open>padLeft w s\<close> is what \<open>fmt.Sprintf\<close> prints for the format \<open>%<w>s\<close> (and, for a
  number already in decimal, \<open>%<w>v\<close>): the value right-justified with spaces to the
  width \<open>w\<close>. Package fmt measures the value in runes, not in bytes.
\<close>

definition padLeft :: "nat \<Rightarrow> string \<Rightarrow> string" where
  "padLeft w s = replicate (w - RuneCountInString s) (CHR 0x20) @ s"

section \<open>The key encoder\<close>

text \<open>
  \<open>COLIDX\<close> is the field's index from 0. Function \<open>Sort\<close> builds every \<open>FORMAT\<close> as the
  string \<open>%<w>s\<close> for a field width \<open>w\<close>; the record keeps \<open>w\<close>.
\<close>

record keyParams =
  COLIDX :: int
  FORMAT :: nat

definition asciiGS :: string where
  "asciiGS = [CHR 0x1D]"

text \<open>
  The loop of the key function over the key specs: \<open>key += Sprintf(v.FORMAT,
  fields[v.COLIDX])\<close>. Indexing \<open>fields\<close> out of range is a panic of the runtime.
\<close>

fun keyFields :: "keyParams list \<Rightarrow> string list \<Rightarrow> string \<Rightarrow> error + string" where
  "keyFields [] flds key = Inr key"
| "keyFields (v # vs) flds key =
     (if 0 \<le> COLIDX v \<and> COLIDX v < int (length flds)
      then keyFields vs flds (key @ padLeft (FORMAT v) (flds ! nat (COLIDX v)))
      else Inl IndexOutOfRange)"

text \<open>
  \<open>makeCompositeKeyFn fieldSep sortSpecs seekLen\<close> is the closure the source returns;
  applied to a record and its offset it gives the composite key: the formatted fields, the
  group separator, and the offset right-justified to \<open>seekLen\<close>. The offset is an int64
  in the source; it never exceeds the size of the file, so the model takes an integer.
\<close>

definition makeCompositeKeyFn ::
    "string \<Rightarrow> keyParams list \<Rightarrow> nat \<Rightarrow> string \<Rightarrow> int \<Rightarrow> error + string" where
  "makeCompositeKeyFn fieldSep sortSpecs seekLen record recordStart =
     (case keyFields sortSpecs (Split record fieldSep) [] of
        Inl e \<Rightarrow> Inl e
      | Inr key \<Rightarrow> Inr (key @ asciiGS @ padLeft seekLen (FormatInt recordStart)))"


section \<open>The merge coroutine\<close>

text \<open>
  A key file being read: the current key (\<open>key1\<close>, \<open>key2\<close> of the source, empty when
  the next one is still to be read), the flag \<open>errKeys == io.EOF\<close>, and what the reader
  has not delivered yet.
\<close>

type_synonym keyReader = "string \<times> bool \<times> string"

definition unprocessed :: "keyReader \<Rightarrow> bool" where
  "unprocessed s = (case s of (key, eof, rd) \<Rightarrow> key \<noteq> [] \<or> \<not> eof)"

text \<open>\<open>if key == "" { key, errKeys = readString(reader) }\<close>\<close>

definition nextKey :: "keyReader \<Rightarrow> keyReader" where
  "nextKey s = (case s of (key, eof, rd) \<Rightarrow> if key = [] then readString rd else s)"

definition loopSize :: "keyReader \<Rightarrow> nat" where
  "loopSize s =
     (case s of (key, eof, rd) \<Rightarrow> 2 * (length key + length rd) + (if eof then 0 else 1))"

lemma readString_parts:
  "readString rd = (r, e, rest) \<Longrightarrow>
   r @ rest = rd \<and> (r = [] \<longrightarrow> e \<and> rd = []) \<and> (e \<longrightarrow> rest = [])"
  by (induction rd arbitrary: r e rest) (auto split: if_splits prod.splits)

lemma readString_shorter: "readString rd = (r, False, rest) \<Longrightarrow> length rest < length rd"
  using readString_parts [of rd r False rest] by (cases "r = []") auto

lemma readString_eof: "readString rd = (r, True, rest) \<Longrightarrow> rest = []"
  using readString_parts [of rd r True rest] by simp

lemma readString_decreases:
  "readString rd = (r, e, rest) \<Longrightarrow>
   2 * length rest + (if e then 0 else 1) < Suc (2 * length rd)"
  using readString_parts [of rd r e rest] by (cases "r = []") auto

lemma loopSize_nextKey_cleared:
  "unprocessed s \<Longrightarrow> nextKey s = (key, eof, rd) \<Longrightarrow> loopSize ([], eof, rd) < loopSize s"
  by (cases s)
     (auto simp: loopSize_def nextKey_def unprocessed_def dest!: readString_parts
           split: if_splits)

lemma loopSize_nextKey_kept:
  "unprocessed s \<Longrightarrow> nextKey s = (key, eof, rd) \<Longrightarrow> loopSize (key, eof, rd) \<le> loopSize s"
  by (cases s)
     (auto simp: loopSize_def nextKey_def unprocessed_def dest!: readString_parts
           split: if_splits)

text \<open>
  The loop that processes the two key files until one of them runs out of records. The
  winner is written to the new file and cleared, so that the next round reads its file
  again.
\<close>

function mergeLoop ::
    "bool \<Rightarrow> keyReader \<Rightarrow> keyReader \<Rightarrow> string \<Rightarrow> keyReader \<times> keyReader \<times> string" where
  "mergeLoop sortAsc s1 s2 out =
     (if unprocessed s1 \<and> unprocessed s2 then
        (case nextKey s1 of (key1, eof1, rd1) \<Rightarrow>
         case nextKey s2 of (key2, eof2, rd2) \<Rightarrow>
           if sortAsc then
             (if key1 < key2
              then mergeLoop sortAsc ([], eof1, rd1) (key2, eof2, rd2) (out @ key1)
              else mergeLoop sortAsc (key1, eof1, rd1) ([], eof2, rd2) (out @ key2))
           else
             (if key1 > key2
              then mergeLoop sortAsc ([], eof1, rd1) (key2, eof2, rd2) (out @ key1)
              else mergeLoop sortAsc (key1, eof1, rd1) ([], eof2, rd2) (out @ key2)))
      else (s1, s2, out))"
  by pat_completeness auto
termination
proof (relation "measure (\<lambda>(sortAsc, s1, s2, out). loopSize s1 + loopSize s2)", goal_cases)
  case 1
  show ?case by simp
next
  case (2 sortAsc s1 s2 out x1 y1 eof1 rd1 x2 y2 eof2 rd2)
  then show ?case
    using loopSize_nextKey_cleared [of s1 x1 eof1 rd1] loopSize_nextKey_kept [of s2 x2 eof2 rd2]
    by simp
next
  case (3 sortAsc s1 s2 out x1 y1 eof1 rd1 x2 y2 eof2 rd2)
  then show ?case
    using loopSize_nextKey_cleared [of s2 x2 eof2 rd2] loopSize_nextKey_kept [of s1 x1 eof1 rd1]
    by simp
next
  case (4 sortAsc s1 s2 out x1 y1 eof1 rd1 x2 y2 eof2 rd2)
  then show ?case
    using loopSize_nextKey_cleared [of s1 x1 eof1 rd1] loopSize_nextKey_kept [of s2 x2 eof2 rd2]
    by simp
next
  case (5 sortAsc s1 s2 out x1 y1 eof1 rd1 x2 y2 eof2 rd2)
  then show ?case
    using loopSize_nextKey_cleared [of s2 x2 eof2 rd2] loopSize_nextKey_kept [of s1 x1 eof1 rd1]
    by simp
qed

declare mergeLoop.simps [simp del]

text \<open>\<open>for errKeys != io.EOF { key, errKeys = readString(reader); fmt.Fprint(writer, key) }\<close>\<close>

function drain :: "keyReader \<Rightarrow> string \<Rightarrow> keyReader \<times> string" where
  "drain s out =
     (case s of (key, eof, rd) \<Rightarrow>
        if \<not> eof
        then (case readString rd of (key', eof', rd') \<Rightarrow> drain (key', eof', rd') (out @ key'))
        else (s, out))"
  by pat_completeness auto
termination
  by (relation "measure (\<lambda>(s, out). case s of (key, eof, rd) \<Rightarrow>
                   2 * length rd + (if eof then 0 else 1))")
     (auto dest: readString_shorter readString_eof split: prod.splits)

declare drain.simps [simp del]

text \<open>
  The code after the loop, which saves the remaining keys. The result is the pair
  \<open>key1\<close>, \<open>key2\<close> as the task leaves it (both variables are declared outside the job
  loop and live on to the next task) and the text written to the new file.
\<close>

definition saveRemaining :: "keyReader \<times> keyReader \<times> string \<Rightarrow> (string \<times> string) \<times> string" where
  "saveRemaining r =
     (case r of ((key1, eof1, rd1), (key2, eof2, rd2), out) \<Rightarrow>
        if key1 \<noteq> [] \<or> \<not> eof1 then
          (case drain (key1, eof1, rd1) (if key1 \<noteq> [] then out @ key1 else out) of
             ((key1', eof1', rd1'), out') \<Rightarrow> ((key1', key2), out'))
        else
          (case drain (key2, eof2, rd2) (if key2 \<noteq> [] then out @ key2 else out) of
             ((key2', eof2', rd2'), out') \<Rightarrow> ((key1, key2'), out')))"

text \<open>
  One task of the coroutine: the two key files are opened (\<open>openFile\<close> returns a nil
  error or halts) and merged into the text of a new temporary file.
\<close>

definition mergeTask ::
    "bool \<Rightarrow> string \<times> string \<Rightarrow> string \<Rightarrow> string \<Rightarrow> (string \<times> string) \<times> string" where
  "mergeTask sortAsc ks sourceKeys1 sourceKeys2 =
     saveRemaining
       (mergeLoop sortAsc (fst ks, False, sourceKeys1) (snd ks, False, sourceKeys2) [])"

subsection \<open>The merge of two key streams, as the specification words it\<close>

text \<open>
  A key stream is a list of keys: the keys of a key file, or the lines the merger reads
  from it, which are the keys with their newlines. \<open>mergeLists\<close> follows the description of the pairwise merger: the two current keys are
  compared, the lower one wins in an ascending sort and the higher one in a descending
  sort, and once a stream is exhausted the rest of the other one is copied.
\<close>

fun mergeLists :: "bool \<Rightarrow> string list \<Rightarrow> string list \<Rightarrow> string list" where
  "mergeLists sortAsc [] ys = ys"
| "mergeLists sortAsc xs [] = xs"
| "mergeLists sortAsc (x # xs) (y # ys) =
     (if (if sortAsc then x < y else x > y)
      then x # mergeLists sortAsc xs (y # ys)
      else y # mergeLists sortAsc (x # xs) ys)"

definition isLine :: "string \<Rightarrow> bool" where
  "isLine l = (l \<noteq> [] \<and> last l = CHR 0x0A \<and> CHR 0x0A \<notin> set (butlast l))"

definition inOrder :: "bool \<Rightarrow> string list \<Rightarrow> bool" where
  "inOrder sortAsc ls = sorted_wrt (\<lambda>a b. if sortAsc then a \<le> b else b \<le> a) ls"


section \<open>Function Sort\<close>

subsection \<open>The temporary directory\<close>

text \<open>
  A temporary file is its name and its text; each one is written once, closed, and from
  then on only read and removed. \<open>keyFiles\<close> are the files \<open>keys_*\<close> on the temporary
  directory, which is taken to hold none when \<open>Sort\<close> starts. \<open>ioutil.TempFile\<close>
  chooses the names at random: \<open>tempName n\<close> is the name of the file created after
  \<open>n\<close> others, for an arbitrary function \<open>tempName\<close>. The coroutine runs one task at
  a time and function \<open>Sort\<close> waits for it before each directory listing, so the files a
  listing finds do not depend on how the two are interleaved; the interleaving only
  changes which file gets which name, and every assignment of names is some \<open>tempName\<close>.
\<close>

type_synonym tempFile = "string \<times> string"

record tempDir =
  keyFiles :: "tempFile list"
  numCreated :: nat

definition createTempFile :: "(nat \<Rightarrow> string) \<Rightarrow> string \<Rightarrow> tempDir \<Rightarrow> tempFile \<times> tempDir" where
  "createTempFile tempName content d =
     ((tempName (numCreated d), content),
      \<lparr>keyFiles = keyFiles d @ [(tempName (numCreated d), content)],
       numCreated = Suc (numCreated d)\<rparr>)"

text \<open>
  A task as the coroutine runs it: the two key files are merged into a new temporary file
  and removed.
\<close>

definition runTask ::
    "(nat \<Rightarrow> string) \<Rightarrow> bool \<Rightarrow> tempFile \<Rightarrow> tempFile \<Rightarrow> (string \<times> string) \<times> tempDir \<Rightarrow>
     (string \<times> string) \<times> tempDir" where
  "runTask tempName sortAsc f1 f2 st =
     (case st of (ks, d) \<Rightarrow>
        case mergeTask sortAsc ks (snd f1) (snd f2) of (ks', merged) \<Rightarrow>
          (ks', snd (createTempFile tempName merged
                      (d\<lparr>keyFiles := remove1 f2 (remove1 f1 (keyFiles d))\<rparr>))))"

text \<open>\<open>filepath.Glob\<close> returns the names in lexical order.\<close>

definition Glob :: "tempDir \<Rightarrow> tempFile list" where
  "Glob d = sort_key fst (keyFiles d)"

subsection \<open>The field widths\<close>

text \<open>\<open>for k, v := range fields { widths[k] = math.Max(widths[k], float64(len(v))) }\<close>\<close>

fun updateWidths :: "nat list \<Rightarrow> nat \<Rightarrow> string list \<Rightarrow> error + nat list" where
  "updateWidths widths k [] = Inr widths"
| "updateWidths widths k (v # vs) =
     (if k < length widths
      then updateWidths (widths[k := max (widths ! k) (length v)]) (Suc k) vs
      else Inl IndexOutOfRange)"

function widthsLoop :: "string \<Rightarrow> string \<Rightarrow> bool \<Rightarrow> nat list \<Rightarrow> error + nat list" where
  "widthsLoop sep rd eof widths =
     (if \<not> eof then
        (case readString rd of (record, eof', rd') \<Rightarrow>
           case updateWidths widths 0 (Split (Trim record blanks) sep) of
             Inl e \<Rightarrow> Inl e
           | Inr widths' \<Rightarrow> widthsLoop sep rd' eof' widths')
      else Inr widths)"
  by pat_completeness auto
termination
proof (relation "measure (\<lambda>(sep, rd, eof, widths). 2 * length rd + (if eof then 0 else 1))",
       goal_cases)
  case 1
  show ?case by simp
next
  case (2 sep rd eof widths r y eof' rd' widths')
  then have "readString rd = (r, eof', rd')" by simp
  from readString_decreases [OF this] 2(1) show ?case by simp
qed

declare widthsLoop.simps [simp del]

text \<open>
  The number of fields is taken from the first record as it is read, and the widths from
  a pass over the whole file.
\<close>

definition fieldWidths :: "string \<Rightarrow> string \<Rightarrow> error + nat list" where
  "fieldWidths sep src =
     (case readString src of (record, eof, rd) \<Rightarrow>
        widthsLoop sep src False (replicate (length (Split record sep)) 0))"

subsection \<open>The key specs\<close>

text \<open>
  The format of a field of width \<open>w\<close> is \<open>fmt.Sprintf("%%%vs", w)\<close> for the float64
  \<open>w\<close>. Below 10^6 that is \<open>%<w>s\<close>. From 10^6 on \<open>%v\<close> prints the float with an
  exponent and the result is no width any more; the model stops there.
\<close>

fun keySpecsLoop :: "nat list \<Rightarrow> string list \<Rightarrow> keyParams list \<Rightarrow> error + keyParams list" where
  "keySpecsLoop widths [] keySpecs = Inr keySpecs"
| "keySpecsLoop widths (v # vs) keySpecs =
     (case ParseInt v of
        None \<Rightarrow> Inl (Halt ''the specification of the sort columns is syntactically incorrect'')
      | Some n \<Rightarrow>
          (let colIdx = n - 1 in
           if 0 \<le> colIdx \<and> colIdx < int (length widths) then
             (if int (widths ! nat colIdx) < 1000000
              then keySpecsLoop widths vs
                     (keySpecs @ [\<lparr>COLIDX = colIdx, FORMAT = widths ! nat colIdx\<rparr>])
              else Inl Unmodelled)
           else Inl IndexOutOfRange))"

subsection \<open>The files of composite keys\<close>

text \<open>\<open>keys.Sort()\<close>, or \<open>sort.Sort(sort.Reverse(keys[:]))\<close>\<close>

definition sortKeys :: "bool \<Rightarrow> string list \<Rightarrow> string list" where
  "sortKeys sortAsc ks = (if sortAsc then sort ks else rev (sort ks))"

text \<open>\<open>for _, v := range keys { fmt.Fprintln(fhKeys, v) }\<close>\<close>

definition keyLines :: "string list \<Rightarrow> string" where
  "keyLines ks = concat (map (\<lambda>v. v @ [CHR 0x0A]) ks)"

record passState =
  recordStart :: int
  keysBuf :: "string list"
  todo :: "tempFile list"
  coroutine :: "(string \<times> string) \<times> tempDir"

text \<open>
  The keys in memory are sorted and written to a new key file; with the second file of a
  pair the merge task is sent to the coroutine. The result is the slice \<open>todo\<close> and what
  the merge coroutine owns: its two current keys, and the temporary directory.
\<close>

definition spillKeys ::
    "(nat \<Rightarrow> string) \<Rightarrow> bool \<Rightarrow> string list \<Rightarrow> tempFile list \<Rightarrow> (string \<times> string) \<times> tempDir \<Rightarrow>
     tempFile list \<times> ((string \<times> string) \<times> tempDir)" where
  "spillKeys tempName sortAsc ks fs co =
     (case createTempFile tempName (keyLines (sortKeys sortAsc ks)) (snd co) of
        (tempFile, d) \<Rightarrow>
          if length (fs @ [tempFile]) = 2
          then ([], runTask tempName sortAsc ((fs @ [tempFile]) ! 0) ((fs @ [tempFile]) ! 1)
                      (fst co, d))
          else (fs @ [tempFile], (fst co, d)))"

text \<open>
  The body of the loop for one record read, \<open>eof\<close> telling whether it came with
  \<open>io.EOF\<close>. \<open>keysBuf\<close> is the slice \<open>keys\<close>.
\<close>

definition keyStep ::
    "(nat \<Rightarrow> string) \<Rightarrow> bool \<Rightarrow> (string \<Rightarrow> int \<Rightarrow> error + string) \<Rightarrow> int \<Rightarrow>
     string \<Rightarrow> bool \<Rightarrow> passState \<Rightarrow> error option \<times> passState" where
  "keyStep tempName sortAsc compositeKeyFn keysPerSort record eof st =
     (let recordLen = int (length record);
          trimmed = Trim record blanks
      in case (if length trimmed > 0
               then (case compositeKeyFn trimmed (recordStart st) of
                       Inl e \<Rightarrow> Inl e
                     | Inr key \<Rightarrow> Inr (keysBuf st @ [key]))
               else Inr (keysBuf st)) of
           Inl e \<Rightarrow> (Some e, st)
         | Inr ks \<Rightarrow>
             if length ks > 0 \<and> (int (length ks) = keysPerSort \<or> eof) then
               (case spillKeys tempName sortAsc ks (todo st) (coroutine st) of
                  (fs, co) \<Rightarrow>
                    (None, \<lparr>recordStart = recordStart st + recordLen, keysBuf = [],
                            todo = fs, coroutine = co\<rparr>))
             else (None, st\<lparr>recordStart := recordStart st + recordLen, keysBuf := ks\<rparr>))"

function keysLoop ::
    "(nat \<Rightarrow> string) \<Rightarrow> bool \<Rightarrow> (string \<Rightarrow> int \<Rightarrow> error + string) \<Rightarrow> int \<Rightarrow>
     string \<Rightarrow> bool \<Rightarrow> passState \<Rightarrow> error option \<times> passState" where
  "keysLoop tempName sortAsc compositeKeyFn keysPerSort rd eof st =
     (if \<not> eof then
        (case readString rd of (record, eof', rd') \<Rightarrow>
           case keyStep tempName sortAsc compositeKeyFn keysPerSort record eof' st of
             (Some e, st') \<Rightarrow> (Some e, st')
           | (None, st') \<Rightarrow> keysLoop tempName sortAsc compositeKeyFn keysPerSort rd' eof' st')
      else (None, st))"
  by pat_completeness auto
termination
proof (relation "measure (\<lambda>(tempName, sortAsc, compositeKeyFn, keysPerSort, rd, eof, st).
                   2 * length rd + (if eof then 0 else 1))", goal_cases)
  case 1
  show ?case by simp
next
  case (2 tempName sortAsc compositeKeyFn keysPerSort rd eof st r y eof' rd' err st')
  then have "readString rd = (r, eof', rd')" by simp
  from readString_decreases [OF this] 2(1) show ?case by simp
qed

declare keysLoop.simps [simp del]

subsection \<open>The merge rounds\<close>

text \<open>\<open>for len(todo) > 1 { chan4tasks<- [2]string{todo[0], todo[1]}; todo = todo[2:] }\<close>\<close>

fun submitPairs ::
    "(nat \<Rightarrow> string) \<Rightarrow> bool \<Rightarrow> tempFile list \<Rightarrow> (string \<times> string) \<times> tempDir \<Rightarrow>
     (string \<times> string) \<times> tempDir" where
  "submitPairs tempName sortAsc (f1 # f2 # fs) st =
     submitPairs tempName sortAsc fs (runTask tempName sortAsc f1 f2 st)"
| "submitPairs tempName sortAsc fs st = st"

lemma length_runTask:
  assumes "{#f1, f2#} \<subseteq># mset (keyFiles (snd st))"
  shows "Suc (length (keyFiles (snd (runTask tempName sortAsc f1 f2 st)))) =
           length (keyFiles (snd st))"
    and "mset (keyFiles (snd st)) - {#f1, f2#}
           \<subseteq># mset (keyFiles (snd (runTask tempName sortAsc f1 f2 st)))"
proof -
  obtain ks d where st: "st = (ks, d)" by (cases st)
  define L where "L = remove1 f2 (remove1 f1 (keyFiles d))"
  have d': "keyFiles (snd (runTask tempName sortAsc f1 f2 st)) =
              L @ [(tempName (numCreated d), snd (mergeTask sortAsc ks (snd f1) (snd f2)))]"
    by (simp add: st L_def runTask_def createTempFile_def split: prod.splits)
  have m: "mset L = mset (keyFiles d) - {#f1, f2#}"
    unfolding L_def
    by (metis add_mset_add_single cancel_ab_semigroup_add_class.diff_right_commute
        diff_diff_add_mset mset_remove1)
  have "size (mset (keyFiles d) - {#f1, f2#}) = size (mset (keyFiles d)) - size {#f1, f2#}"
    using assms st by (simp add: size_Diff_submset)
  moreover have "size {#f1, f2#} \<le> size (mset (keyFiles d))"
    using assms st by (metis size_mset_mono snd_conv)
  moreover have "length L = size (mset L)" by simp
  ultimately have "Suc (Suc (length L)) = length (keyFiles d)"
    by (simp only: m) simp
  then show "Suc (length (keyFiles (snd (runTask tempName sortAsc f1 f2 st)))) =
           length (keyFiles (snd st))"
    by (simp only: d') (simp add: st)
  show "mset (keyFiles (snd st)) - {#f1, f2#}
           \<subseteq># mset (keyFiles (snd (runTask tempName sortAsc f1 f2 st)))"
    by (simp only: d' mset_append m) (simp add: st)
qed

lemma length_submitPairs:
  "mset fs \<subseteq># mset (keyFiles (snd st)) \<Longrightarrow>
   length (keyFiles (snd (submitPairs tempName sortAsc fs st))) + length fs div 2 =
     length (keyFiles (snd st))"
proof (induction tempName sortAsc fs st rule: submitPairs.induct)
  case (1 tempName sortAsc f1 f2 fs st)
  let ?st' = "runTask tempName sortAsc f1 f2 st"
  from 1(2) have sub: "{#f1, f2#} + mset fs \<subseteq># mset (keyFiles (snd st))"
    by simp
  then have two: "{#f1, f2#} \<subseteq># mset (keyFiles (snd st))"
    using mset_subset_eq_add_left subset_mset.order_trans by blast
  from sub have "mset fs \<subseteq># mset (keyFiles (snd st)) - {#f1, f2#}"
    by (metis add.commute mset_subset_eq_add_left subset_mset.dual_order.trans
        subset_mset.le_diff_conv2)
  then have "mset fs \<subseteq># mset (keyFiles (snd ?st'))"
    using length_runTask(2) [OF two] subset_mset.order_trans by blast
  then have "length (keyFiles (snd (submitPairs tempName sortAsc fs ?st'))) + length fs div 2
               = length (keyFiles (snd ?st'))"
    by (rule 1(1))
  with length_runTask(1) [OF two, of tempName sortAsc] show ?case by simp
qed simp_all

text \<open>
  The rounds after the first pass: list the key files, and while more than one is left
  pair them up in the order of the listing, wait for the coroutine, and list again.
\<close>

function mergeRounds ::
    "(nat \<Rightarrow> string) \<Rightarrow> bool \<Rightarrow> (string \<times> string) \<times> tempDir \<Rightarrow>
     tempFile list \<times> (string \<times> string) \<times> tempDir" where
  "mergeRounds tempName sortAsc st =
     (if length (Glob (snd st)) > 1
      then mergeRounds tempName sortAsc (submitPairs tempName sortAsc (Glob (snd st)) st)
      else (Glob (snd st), st))"
  by pat_completeness auto
termination
proof (relation "measure (\<lambda>(tempName, sortAsc, st). length (keyFiles (snd st)))", goal_cases)
  case 1
  show ?case by simp
next
  case (2 tempName sortAsc st)
  have "mset (Glob (snd st)) \<subseteq># mset (keyFiles (snd st))"
    by (simp add: Glob_def)
  from length_submitPairs [OF this, of tempName sortAsc] 2
  show ?case by (simp add: Glob_def)
qed

declare mergeRounds.simps [simp del]

subsection \<open>The sorted data\<close>

text \<open>
  The tokens \<open>bufio.Scanner\<close> delivers with its default split function: the lines
  without their newline and without one carriage return before it. A line that does not
  fit the buffer of 64 KiB ends the scan.
\<close>

definition dropCR :: "string \<Rightarrow> string" where
  "dropCR data = (if data \<noteq> [] \<and> last data = CHR 0x0D then butlast data else data)"

function scanTokens :: "string \<Rightarrow> string list" where
  "scanTokens rd =
     (if rd = [] then []
      else (case readString rd of (line, eof, rd') \<Rightarrow>
              (let data = (if eof then line else butlast line)
               in if int (length data) > 65535 then [] else dropCR data # scanTokens rd')))"
  by pat_completeness auto
termination
proof (relation "measure length", goal_cases)
  case 1
  show ?case by simp
next
  case (2 rd line y eof rd')
  then have "readString rd = (line, eof, rd')" by simp
  from readString_parts [OF this] 2(1) show ?case by (cases "line = []") auto
qed

declare scanTokens.simps [simp del]

text \<open>
  The loop over the sorted keys: the text after the first group separator is the offset,
  the source is read from there up to the next newline, and the record is written as it
  is. The result is a failure, if any, and the text written to the destination.
  \<open>seekFile\<close> halts when the offset is no number or the seek fails.
\<close>

fun materialize :: "string \<Rightarrow> string list \<Rightarrow> string \<Rightarrow> error option \<times> string" where
  "materialize src [] out = (None, out)"
| "materialize src (text # texts) out =
     (case Split text asciiGS of
        a # offsetStr # rest \<Rightarrow>
          (case ParseInt (TrimLeft offsetStr [CHR 0x20]) of
             None \<Rightarrow> (Some (Halt ''strconv.ParseInt''), out)
           | Some offset \<Rightarrow>
               if offset < 0 then (Some (Halt ''fh.Seek''), out)
               else (case readString (drop (nat offset) src) of
                       (record, eof, rd) \<Rightarrow> materialize src texts (out @ record)))
      | _ \<Rightarrow> (Some IndexOutOfRange, out))"

subsection \<open>Sort\<close>

text \<open>
  What a call of \<open>Sort\<close> leaves behind: the failure that ended it, if any, the temporary
  directory, and the text of the destination file if that file was created.
\<close>

record outcome =
  failure :: "error option"
  tempDirAfter :: tempDir
  outFileAfter :: "string option"

definition noTempFiles :: tempDir where
  "noTempFiles = \<lparr>keyFiles = [], numCreated = 0\<rparr>"

definition halt :: "string \<Rightarrow> outcome" where
  "halt msg = \<lparr>failure = Some (Halt msg), tempDirAfter = noTempFiles, outFileAfter = None\<rparr>"

text \<open>The part of \<open>Sort\<close> that follows the checks of the arguments, on the source text.\<close>

definition sortFile ::
    "(nat \<Rightarrow> string) \<Rightarrow> string \<Rightarrow> bool \<Rightarrow> string \<Rightarrow> string \<Rightarrow> int \<Rightarrow> outcome" where
  "sortFile tempName src sortAsc usingFields sep keysPerSort =
     (case fieldWidths sep src of
        Inl e \<Rightarrow> \<lparr>failure = Some e, tempDirAfter = noTempFiles, outFileAfter = None\<rparr>
      | Inr widths \<Rightarrow>
     (case keySpecsLoop widths (Split usingFields '','') [] of
        Inl e \<Rightarrow> \<lparr>failure = Some e, tempDirAfter = noTempFiles, outFileAfter = None\<rparr>
      | Inr keySpecs \<Rightarrow>
     (case keysLoop tempName sortAsc
             (makeCompositeKeyFn sep keySpecs (length (FormatInt (int (length src)))))
             keysPerSort src False
             \<lparr>recordStart = 0, keysBuf = [], todo = [], coroutine = (([], []), noTempFiles)\<rparr> of
        (Some e, st) \<Rightarrow>
          \<lparr>failure = Some e, tempDirAfter = snd (coroutine st), outFileAfter = None\<rparr>
      | (None, st) \<Rightarrow>
     (case mergeRounds tempName sortAsc (coroutine st) of
        ([], ks, d) \<Rightarrow> \<lparr>failure = Some IndexOutOfRange, tempDirAfter = d, outFileAfter = None\<rparr>
      | (sortedKeysFile # fs, ks, d) \<Rightarrow>
     (case materialize src (scanTokens (snd sortedKeysFile)) [] of
        (Some e, out) \<Rightarrow> \<lparr>failure = Some e, tempDirAfter = d, outFileAfter = Some out\<rparr>
      | (None, out) \<Rightarrow>
          \<lparr>failure = None,
           tempDirAfter = d\<lparr>keyFiles := remove1 sortedKeysFile (keyFiles d)\<rparr>,
           outFileAfter = Some out\<rparr>)))))"

text \<open>
  \<open>Sort\<close>, on a file system \<open>fs\<close> that maps the path of a file to its text. The
  destination is taken to be another file than the source. The flag \<open>verbose\<close> only adds
  progress messages and is left out.
\<close>

definition Sort ::
    "(nat \<Rightarrow> string) \<Rightarrow> (string \<rightharpoonup> string) \<Rightarrow> string \<Rightarrow> string \<Rightarrow> bool \<Rightarrow> string \<Rightarrow> string \<Rightarrow> int \<Rightarrow>
     outcome" where
  "Sort tempName fs inFile outFile sortAsc usingFields sep keysPerSort =
     (if inFile = [] then halt ''the input file was not specified''
      else if outFile = [] then halt ''the output file was not specified''
      else if usingFields = [] then halt ''the index fields columns were not specified''
      else if keysPerSort = 0
      then halt ''the number of keys for in-place sorting was not specified''
      else (case fs inFile of
              None \<Rightarrow> halt ''the input file cannot be located or is empty''
            | Some src \<Rightarrow>
                if length src = 0 then halt ''the input file cannot be located or is empty''
                else sortFile tempName src sortAsc usingFields sep keysPerSort))"


subsection \<open>The records of the source\<close>

text \<open>
  The records the loops of \<open>Sort\<close> read, each with the offset of its first byte: all the
  lines of the source and, where the source ends with a newline, the empty record that
  comes with \<open>io.EOF\<close>.
\<close>

function recordsFrom :: "int \<Rightarrow> string \<Rightarrow> (int \<times> string) list" where
  "recordsFrom start rd =
     (case readString rd of (r, eof, rd') \<Rightarrow>
        (start, r) # (if eof then [] else recordsFrom (start + int (length r)) rd'))"
  by pat_completeness auto
termination
proof (relation "measure (\<lambda>(start, rd). length rd)", goal_cases)
  case 1
  show ?case by simp
next
  case (2 start rd r y eof rd')
  then have "readString rd = (r, eof, rd')" by simp
  from readString_shorter [of rd r rd'] this 2(3) show ?case by simp
qed

declare recordsFrom.simps [simp del]

definition sourceRecords :: "string \<Rightarrow> (int \<times> string) list" where
  "sourceRecords src = recordsFrom 0 src"

subsection \<open>Notions of the statements and proofs\<close>

text \<open>The number a decimal string stands for, with its sign.\<close>

definition signedVal :: "string \<Rightarrow> int" where
  "signedVal s = (if hd s = CHR ''-'' then - digitsVal (tl s) else digitsVal s)"

text \<open>
  A reader of a key file in which every key is a line: the current key is empty or a line,
  the unread text is the lines \<open>ls\<close>, and \<open>io.EOF\<close> has only been seen with nothing
  left. \<open>pend key ls\<close> are the keys it still has to deliver.
\<close>

definition wfReader :: "string \<Rightarrow> bool \<Rightarrow> string list \<Rightarrow> bool" where
  "wfReader key eof ls =
     ((key = [] \<or> isLine key) \<and> (\<forall>l\<in>set ls. isLine l) \<and> (eof \<longrightarrow> key = [] \<and> ls = []))"

definition pend :: "string \<Rightarrow> string list \<Rightarrow> string list" where
  "pend key ls = (if key = [] then ls else key # ls)"

text \<open>
  A set of keys on which comparing two keys and comparing them with their newlines, as the
  merge does, agree, and in which no key holds a newline.
\<close>

definition consistent :: "string set \<Rightarrow> bool" where
  "consistent K =
     ((\<forall>a\<in>K. CHR 0x0A \<notin> set a) \<and>
      (\<forall>a\<in>K. \<forall>b\<in>K. (a @ [CHR 0x0A] < b @ [CHR 0x0A]) = (a < b)))"

text \<open>
  The key files on the temporary directory hold the runs \<open>KS\<close>: each file is the lines
  of one run, and each run is in the requested order and made of keys of \<open>K\<close>.
  \<open>allKeys\<close> are the keys of all the runs together.
\<close>

definition keyRuns :: "bool \<Rightarrow> string set \<Rightarrow> tempDir \<Rightarrow> string list multiset \<Rightarrow> bool" where
  "keyRuns sortAsc K d KS =
     (image_mset snd (mset (keyFiles d)) = image_mset keyLines KS \<and>
      (\<forall>ks\<in>#KS. inOrder sortAsc ks \<and> set ks \<subseteq> K))"

definition allKeys :: "string list multiset \<Rightarrow> string multiset" where
  "allKeys KS = \<Sum>\<^sub># (image_mset mset KS)"

text \<open>
  The composite key of each record of a list, paired with the record, or the first failure
  of the key function. \<open>nonBlank\<close> are the records that are not empty once trimmed: the
  ones \<open>Sort\<close> makes a key for.
\<close>

fun keyedRecords ::
    "(string \<Rightarrow> int \<Rightarrow> error + string) \<Rightarrow> (int \<times> string) list \<Rightarrow> error + (string \<times> string) list" where
  "keyedRecords keyFn [] = Inr []"
| "keyedRecords keyFn ((off, r) # rs) =
     (case keyFn (Trim r blanks) off of
        Inl e \<Rightarrow> Inl e
      | Inr k \<Rightarrow> (case keyedRecords keyFn rs of Inl e \<Rightarrow> Inl e | Inr krs \<Rightarrow> Inr ((k, r) # krs)))"

definition nonBlank :: "(int \<times> string) list \<Rightarrow> (int \<times> string) list" where
  "nonBlank rs = filter (\<lambda>(off, r). Trim r blanks \<noteq> []) rs"

text \<open>
  A key that is some fields without group separator and newline, the group separator, and
  a suffix of \<open>w\<close> bytes without newline.
\<close>

definition goodKey :: "nat \<Rightarrow> string \<Rightarrow> bool" where
  "goodKey w k =
     (\<exists>F S. k = F @ CHR 0x1D # S \<and> CHR 0x1D \<notin> set F \<and> CHR 0x0A \<notin> set F \<and>
            length S = w \<and> CHR 0x0A \<notin> set S)"

text \<open>
  The composite keys that \<open>Sort\<close> computes for a source, each with its record: the
  field widths of the pre-pass, the key specs of the field list, and the key encoder on
  every record that is not blank; or the failure of the first of these to fail.
\<close>

definition sourceKeys :: "string \<Rightarrow> string \<Rightarrow> string \<Rightarrow> error + (string \<times> string) list" where
  "sourceKeys src usingFields sep =
     (case fieldWidths sep src of
        Inl e \<Rightarrow> Inl e
      | Inr widths \<Rightarrow>
          (case keySpecsLoop widths (Split usingFields '','') [] of
             Inl e \<Rightarrow> Inl e
           | Inr keySpecs \<Rightarrow>
               keyedRecords
                 (makeCompositeKeyFn sep keySpecs (length (FormatInt (int (length src)))))
                 (nonBlank (sourceRecords src))))"

text \<open>
  The scenario of the specification: three records of two fields, sorted on the second
  field and then the first. \<open>scenarioKeys\<close> are their composite keys.
\<close>

definition scenarioSource :: string where
  "scenarioSource =
     ''3'' @ [CHR 0x09] @ ''Z'' @ [CHR 0x0A] @ ''1'' @ [CHR 0x09] @ ''A'' @ [CHR 0x0A] @
     ''2'' @ [CHR 0x09] @ ''A'' @ [CHR 0x0A]"

definition scenarioKeys :: "(string \<times> string) list" where
  "scenarioKeys =
     [(''Z3'' @ [CHR 0x1D] @ '' 0'', ''3'' @ [CHR 0x09] @ ''Z'' @ [CHR 0x0A]),
      (''A1'' @ [CHR 0x1D] @ '' 4'', ''1'' @ [CHR 0x09] @ ''A'' @ [CHR 0x0A]),
      (''A2'' @ [CHR 0x1D] @ '' 8'', ''2'' @ [CHR 0x09] @ ''A'' @ [CHR 0x0A])]"

section \<open>Properties of the library functions\<close>

lemma replicate_append_le:
  "(replicate n c @ a \<le> replicate n c @ b) = (a \<le> (b::'a::linorder list))"
  by (induction n) auto

lemma isDigit_digitChar: "d < 10 \<Longrightarrow> isDigit (digitChar d)"
  by (simp add: isDigit_def digitChar_def)

lemma of_char_digitChar: "d < 10 \<Longrightarrow> (of_char (digitChar d) :: nat) = 48 + d"
  by (simp add: digitChar_def)

lemma digitsOf_digits: "list_all isDigit (digitsOf n)"
  by (induction n rule: digitsOf.induct) (subst digitsOf.simps, simp add: isDigit_digitChar)

lemma digitsOf_nonempty: "digitsOf n \<noteq> []"
  by (subst digitsOf.simps) simp

lemma digitsVal_append: "digitsVal (ds @ [c]) = 10 * digitsVal ds + (int (of_char c) - 48)"
  by (simp add: digitsVal_def)

lemma digitsVal_digitsOf: "digitsVal (digitsOf n) = int n"
proof (induction n rule: digitsOf.induct)
  case (1 n)
  show ?case
  proof (cases "n < 10")
    case True
    then show ?thesis
      by (subst digitsOf.simps) (simp add: digitsVal_def of_char_digitChar)
  next
    case False
    with 1 have "digitsVal (digitsOf (n div 10)) = int (n div 10)" by simp
    with False show ?thesis
      by (subst digitsOf.simps) (simp add: digitsVal_append of_char_digitChar zdiv_int zmod_int)
  qed
qed

lemma hd_digitsOf_digit: "isDigit (hd (digitsOf n))"
  using digitsOf_digits [of n] digitsOf_nonempty [of n]
  by (cases "digitsOf n") simp_all

lemma not_digit:
  "\<not> isDigit (CHR ''-'')" "\<not> isDigit (CHR 0x20)" "\<not> isDigit (CHR 0x1D)"
  "\<not> isDigit (CHR ''+'')" "\<not> isDigit (CHR 0x0A)" "\<not> isDigit (CHR 0x0D)"
  by (simp_all add: isDigit_def)

lemma signedVal_FormatInt: "signedVal (FormatInt i) = i"
  using hd_digitsOf_digit [of "nat i"] not_digit
  by (auto simp: signedVal_def FormatInt_def digitsVal_digitsOf)

lemma FormatInt_inj: "FormatInt i = FormatInt j \<Longrightarrow> i = j"
  by (metis signedVal_FormatInt)

lemma FormatInt_nonempty: "FormatInt i \<noteq> []"
  by (simp add: FormatInt_def digitsOf_nonempty)

lemma FormatInt_chars: "c \<in> set (FormatInt i) \<Longrightarrow> isDigit c \<or> c = CHR ''-''"
  using digitsOf_digits [of "nat i"] digitsOf_digits [of "nat (- i)"]
  by (auto simp: FormatInt_def list_all_iff split: if_splits)

lemma hd_FormatInt: "hd (FormatInt i) \<noteq> CHR 0x20"
  using FormatInt_chars [of "hd (FormatInt i)" i] FormatInt_nonempty [of i] not_digit
  by (cases "FormatInt i") auto

lemma TrimLeft_padLeft:
  "s \<noteq> [] \<Longrightarrow> hd s \<noteq> CHR 0x20 \<Longrightarrow> TrimLeft (padLeft w s) [CHR 0x20] = s"
  by (cases s) (simp_all add: TrimLeft_def padLeft_def dropWhile_append3)

lemma TrimLeft_padLeft_FormatInt: "TrimLeft (padLeft w (FormatInt i)) [CHR 0x20] = FormatInt i"
  by (simp add: TrimLeft_padLeft FormatInt_nonempty hd_FormatInt)

lemma GS_notin_padLeft_FormatInt: "CHR 0x1D \<notin> set (padLeft w (FormatInt i))"
  using FormatInt_chars [of "CHR 0x1D" i] not_digit
  by (auto simp: padLeft_def)

lemma append_GS_inj:
  assumes "F1 @ CHR 0x1D # S1 = F2 @ CHR 0x1D # S2" "CHR 0x1D \<notin> set S1" "CHR 0x1D \<notin> set S2"
  shows "S1 = S2"
proof -
  have "takeWhile (\<lambda>c. c \<noteq> CHR 0x1D) (rev (F1 @ CHR 0x1D # S1)) = rev S1"
    using assms(2) by (auto simp: takeWhile_tail)
  moreover have "takeWhile (\<lambda>c. c \<noteq> CHR 0x1D) (rev (F2 @ CHR 0x1D # S2)) = rev S2"
    using assms(3) by (auto simp: takeWhile_tail)
  ultimately show ?thesis using assms(1) by (metis rev_is_rev_conv)
qed

section \<open>Properties of the key encoder\<close>

lemma makeCompositeKeyFn_Inr:
  "makeCompositeKeyFn sep specs seekLen r off = Inr k \<Longrightarrow>
   \<exists>F. keyFields specs (Split r sep) [] = Inr F \<and>
       k = F @ CHR 0x1D # padLeft seekLen (FormatInt off)"
  by (auto simp: makeCompositeKeyFn_def asciiGS_def split: sum.splits)



text \<open>
  Claim C4, as the specification states it: for field values \<open>a\<close> and \<open>b\<close> no longer than
  the width \<open>w\<close>, right-justifying both to \<open>w\<close> preserves their order: the padded
  \<open>a\<close> is at most the padded \<open>b\<close> if and only if \<open>a\<close> is at most \<open>b\<close>. It fails for
  values of different lengths: padded to width 2, \<open>b\<close> comes before \<open>ab\<close>, while \<open>ab\<close>
  comes before \<open>b\<close> unpadded.
\<close>

theorem padLeft_order_counterexample:
  "length ''b'' \<le> 2 \<and> length ''ab'' \<le> 2 \<and>
   \<not> ((padLeft 2 ''b'' \<le> padLeft 2 ''ab'') = (''b'' \<le> ''ab''))"
  by code_simp

text \<open>
  Claim C4, amended: right-justifying two field values of the same width (the same
  number of runes, which for ASCII data is the same length) to a width \<open>w\<close> preserves
  their lexicographic order, in both directions.
\<close>

theorem padLeft_preserves_order_same_width:
  "RuneCountInString a = RuneCountInString b \<Longrightarrow> (padLeft w a \<le> padLeft w b) = (a \<le> b)"
  unfolding padLeft_def by (simp add: replicate_append_le)

theorem padLeft_preserves_order_same_width_witness:
  "RuneCountInString ''ab'' = RuneCountInString ''ba'' \<and>
   (padLeft 5 ''ab'' \<le> padLeft 5 ''ba'') = (''ab'' \<le> ''ba'') \<and> ''ab'' \<le> ''ba''"
proof -
  have h: "RuneCountInString ''ab'' = RuneCountInString ''ba''" by code_simp
  have "''ab'' \<le> ''ba''" by simp
  with h padLeft_preserves_order_same_width [OF h, of 5] show ?thesis by blast
qed

text \<open>
  Claim C5: two composite keys that the key encoder produces for different offsets are
  different strings, whatever the records and their fields are.
\<close>

theorem composite_keys_distinct:
  assumes "makeCompositeKeyFn sep specs seekLen r1 o1 = Inr k1"
    and "makeCompositeKeyFn sep specs seekLen r2 o2 = Inr k2"
    and "o1 \<noteq> o2"
  shows "k1 \<noteq> k2"
proof
  assume eq: "k1 = k2"
  obtain F1 where k1: "k1 = F1 @ CHR 0x1D # padLeft seekLen (FormatInt o1)"
    using makeCompositeKeyFn_Inr [OF assms(1)] by blast
  obtain F2 where k2: "k2 = F2 @ CHR 0x1D # padLeft seekLen (FormatInt o2)"
    using makeCompositeKeyFn_Inr [OF assms(2)] by blast
  have "padLeft seekLen (FormatInt o1) = padLeft seekLen (FormatInt o2)"
    using eq k1 k2 append_GS_inj GS_notin_padLeft_FormatInt by blast
  then have "FormatInt o1 = FormatInt o2"
    by (metis TrimLeft_padLeft_FormatInt)
  with assms(3) show False by (simp add: FormatInt_inj)
qed

theorem composite_keys_distinct_witness:
  "makeCompositeKeyFn [CHR 0x09] [\<lparr>COLIDX = 1, FORMAT = 1\<rparr>] 2 (''1'' @ [CHR 0x09] @ ''A'') 0
     = Inr (''A'' @ [CHR 0x1D] @ '' 0'') \<and>
   makeCompositeKeyFn [CHR 0x09] [\<lparr>COLIDX = 1, FORMAT = 1\<rparr>] 2 (''2'' @ [CHR 0x09] @ ''A'') 4
     = Inr (''A'' @ [CHR 0x1D] @ '' 4'') \<and>
   (0::int) \<noteq> 4 \<and> ''A'' @ [CHR 0x1D] @ '' 0'' \<noteq> ''A'' @ [CHR 0x1D] @ '' 4''"
proof -
  have h1: "makeCompositeKeyFn [CHR 0x09] [\<lparr>COLIDX = 1, FORMAT = 1\<rparr>] 2
              (''1'' @ [CHR 0x09] @ ''A'') 0 = Inr (''A'' @ [CHR 0x1D] @ '' 0'')"
    by code_simp
  have h2: "makeCompositeKeyFn [CHR 0x09] [\<lparr>COLIDX = 1, FORMAT = 1\<rparr>] 2
              (''2'' @ [CHR 0x09] @ ''A'') 4 = Inr (''A'' @ [CHR 0x1D] @ '' 4'')"
    by code_simp
  have h3: "(0::int) \<noteq> 4" by simp
  from composite_keys_distinct [OF h1 h2 h3] h1 h2 h3 show ?thesis by blast
qed




section \<open>Properties of the merge coroutine\<close>

lemma readString_line: "isLine l \<Longrightarrow> readString (l @ rest) = (l, False, rest)"
proof (induction l)
  case Nil
  then show ?case by (simp add: isLine_def)
next
  case (Cons c l)
  show ?case
  proof (cases "l = []")
    case True
    with Cons.prems show ?thesis by (simp add: isLine_def)
  next
    case False
    with Cons.prems have "isLine l" "c \<noteq> CHR 0x0A" by (auto simp: isLine_def)
    with Cons.IH show ?thesis by simp
  qed
qed

lemma drain_lines:
  "\<forall>l\<in>set ls. isLine l \<Longrightarrow>
   drain (key, False, concat ls) out = (([], True, []), out @ concat ls)"
proof (induction ls arbitrary: key out)
  case Nil
  show ?case by (simp add: drain.simps [of "(key, False, [])"] drain.simps [of "([], True, [])"])
next
  case (Cons l ls)
  then have "readString (concat (l # ls)) = (l, False, concat ls)"
    by (simp add: readString_line)
  with Cons show ?case
    by (simp add: drain.simps [of "(key, False, l @ concat ls)"])
qed

lemma mergeLists_Nil2: "mergeLists sortAsc xs [] = xs"
  by (cases xs) simp_all

lemma mergeLists_step:
  "(k1 = [] \<longrightarrow> ls1 = []) \<Longrightarrow> (k2 = [] \<longrightarrow> ls2 = []) \<Longrightarrow>
   concat (mergeLists sortAsc (pend k1 ls1) (pend k2 ls2)) =
     (if (if sortAsc then k1 < k2 else k1 > k2)
      then k1 @ concat (mergeLists sortAsc ls1 (pend k2 ls2))
      else k2 @ concat (mergeLists sortAsc (pend k1 ls1) ls2))"
  by (cases "k1 = []"; cases "k2 = []") (auto simp: pend_def mergeLists_Nil2)

lemma unprocessed_iff: "unprocessed (key, eof, rd) = (key \<noteq> [] \<or> \<not> eof)"
  by (simp add: unprocessed_def)

lemma wfReaderD:
  assumes "wfReader key eof ls"
  shows "key = [] \<or> isLine key" "\<forall>l\<in>set ls. isLine l" "eof \<Longrightarrow> key = []" "eof \<Longrightarrow> ls = []"
  using assms unfolding wfReader_def by blast+

lemma nextKey_wf:
  assumes "wfReader key eof ls" "unprocessed (key, eof, concat ls)"
  shows "\<exists>k' e' ls'. nextKey (key, eof, concat ls) = (k', e', concat ls') \<and> wfReader k' e' ls' \<and>
           pend k' ls' = pend key ls \<and> (k' = [] \<longrightarrow> e' \<and> ls' = [])"
proof (cases "key = []")
  case False
  then have "nextKey (key, eof, concat ls) = (key, eof, concat ls)"
    by (simp add: nextKey_def)
  with assms(1) False show ?thesis by blast
next
  case True
  show ?thesis
  proof (cases ls)
    case Nil
    with True have "nextKey (key, eof, concat ls) = ([], True, concat [])"
      by (simp add: nextKey_def)
    moreover have "wfReader [] True []" by (simp add: wfReader_def)
    ultimately show ?thesis using True Nil by blast
  next
    case (Cons l ls')
    with assms have l: "isLine l" "\<forall>l\<in>set ls'. isLine l"
      using wfReaderD(2) [OF assms(1)] by simp_all
    with True Cons have "nextKey (key, eof, concat ls) = (l, False, concat ls')"
      by (simp add: nextKey_def readString_line)
    moreover have "wfReader l False ls'" using l by (simp add: wfReader_def)
    moreover have "l \<noteq> []" using l by (simp add: isLine_def)
    moreover have "pend l ls' = pend key ls" using True Cons \<open>l \<noteq> []\<close> by (simp add: pend_def)
    ultimately show ?thesis by blast
  qed
qed

lemma saveRemaining_done:
  assumes "wfReader key1 eof1 ls1" "wfReader key2 eof2 ls2"
    and "\<not> (unprocessed (key1, eof1, concat ls1) \<and> unprocessed (key2, eof2, concat ls2))"
  shows "saveRemaining ((key1, eof1, concat ls1), (key2, eof2, concat ls2), out) =
           (([], []), out @ concat (mergeLists sortAsc (pend key1 ls1) (pend key2 ls2)))"
proof (cases "key1 \<noteq> [] \<or> \<not> eof1")
  case True
  then have e1: "\<not> eof1" using wfReaderD(3) [OF assms(1)] by blast
  from True assms(3) have k2: "key2 = []" and "eof2" by (simp_all add: unprocessed_iff)
  then have l2: "ls2 = []" using wfReaderD(4) [OF assms(2)] by blast
  have "\<And>k w. drain (k, False, concat ls1) w = (([], True, []), w @ concat ls1)"
    by (rule drain_lines [OF wfReaderD(2) [OF assms(1)]])
  with e1 k2 l2 show ?thesis
    by (simp add: saveRemaining_def pend_def mergeLists_Nil2)
next
  case False
  then have e: "key1 = []" "eof1" by simp_all
  then have l1: "ls1 = []" using wfReaderD(4) [OF assms(1)] by blast
  show ?thesis
  proof (cases eof2)
    case True
    then have "key2 = []" "ls2 = []" using wfReaderD(3,4) [OF assms(2)] by blast+
    with e l1 True show ?thesis
      by (simp add: saveRemaining_def pend_def drain.simps [of "([], True, [])"])
  next
    case False
    have "\<And>k w. drain (k, False, concat ls2) w = (([], True, []), w @ concat ls2)"
      by (rule drain_lines [OF wfReaderD(2) [OF assms(2)]])
    with e l1 False show ?thesis
      by (simp add: saveRemaining_def pend_def)
  qed
qed

lemma mergeLoop_refines:
  "wfReader key1 eof1 ls1 \<Longrightarrow> wfReader key2 eof2 ls2 \<Longrightarrow>
   saveRemaining (mergeLoop sortAsc (key1, eof1, concat ls1) (key2, eof2, concat ls2) out) =
     (([], []), out @ concat (mergeLists sortAsc (pend key1 ls1) (pend key2 ls2)))"
proof (induction "loopSize (key1, eof1, concat ls1) + loopSize (key2, eof2, concat ls2)"
       arbitrary: key1 eof1 ls1 key2 eof2 ls2 out rule: less_induct)
  case less
  let ?s1 = "(key1, eof1, concat ls1)" and ?s2 = "(key2, eof2, concat ls2)"
  show ?case
  proof (cases "unprocessed ?s1 \<and> unprocessed ?s2")
    case False
    have "mergeLoop sortAsc ?s1 ?s2 out = (?s1, ?s2, out)"
      by (subst mergeLoop.simps) (simp only: False if_False)
    with False less.prems show ?thesis
      by (simp add: saveRemaining_done)
  next
    case True
    obtain k1 e1 l1 where n1: "nextKey ?s1 = (k1, e1, concat l1)" "wfReader k1 e1 l1"
        "pend k1 l1 = pend key1 ls1" "k1 = [] \<longrightarrow> e1 \<and> l1 = []"
      using nextKey_wf [OF less.prems(1)] True by blast
    obtain k2 e2 l2 where n2: "nextKey ?s2 = (k2, e2, concat l2)" "wfReader k2 e2 l2"
        "pend k2 l2 = pend key2 ls2" "k2 = [] \<longrightarrow> e2 \<and> l2 = []"
      using nextKey_wf [OF less.prems(2)] True by blast
    have w1: "wfReader [] e1 l1" and w2: "wfReader [] e2 l2"
      using wfReaderD [OF n1(2)] wfReaderD [OF n2(2)] by (simp_all add: wfReader_def)
    have m1: "loopSize ([], e1, concat l1) + loopSize (k2, e2, concat l2)
                < loopSize ?s1 + loopSize ?s2"
      using loopSize_nextKey_cleared [of ?s1 k1 e1 "concat l1"]
        loopSize_nextKey_kept [of ?s2 k2 e2 "concat l2"] True n1(1) n2(1) by simp
    have m2: "loopSize (k1, e1, concat l1) + loopSize ([], e2, concat l2)
                < loopSize ?s1 + loopSize ?s2"
      using loopSize_nextKey_cleared [of ?s2 k2 e2 "concat l2"]
        loopSize_nextKey_kept [of ?s1 k1 e1 "concat l1"] True n1(1) n2(1) by simp
    have ih1: "saveRemaining (mergeLoop sortAsc ([], e1, concat l1) (k2, e2, concat l2) (out @ k1)) =
        (([], []), (out @ k1) @ concat (mergeLists sortAsc (pend [] l1) (pend k2 l2)))"
      by (rule less.hyps [OF m1 w1 n2(2)])
    have ih2: "saveRemaining (mergeLoop sortAsc (k1, e1, concat l1) ([], e2, concat l2) (out @ k2)) =
        (([], []), (out @ k2) @ concat (mergeLists sortAsc (pend k1 l1) (pend [] l2)))"
      by (rule less.hyps [OF m2 n1(2) w2])
    have p: "pend [] l1 = l1" "pend [] l2 = l2" by (simp_all add: pend_def)
    have step: "mergeLoop sortAsc ?s1 ?s2 out =
            (if (if sortAsc then k1 < k2 else k1 > k2)
             then mergeLoop sortAsc ([], e1, concat l1) (k2, e2, concat l2) (out @ k1)
             else mergeLoop sortAsc (k1, e1, concat l1) ([], e2, concat l2) (out @ k2))"
      apply (subst mergeLoop.simps)
      apply (simp only: True if_True n1(1) n2(1) prod.case)
      apply (cases sortAsc)
       apply simp_all
      done
    have "saveRemaining (mergeLoop sortAsc ?s1 ?s2 out) =
            (([], []), out @ (if (if sortAsc then k1 < k2 else k1 > k2)
               then k1 @ concat (mergeLists sortAsc l1 (pend k2 l2))
               else k2 @ concat (mergeLists sortAsc (pend k1 l1) l2)))"
      by (simp only: step ih1 ih2 p if_distrib [of saveRemaining] append_assoc split: if_splits) simp
    also have "\<dots> = (([], []), out @ concat (mergeLists sortAsc (pend k1 l1) (pend k2 l2)))"
      using mergeLists_step [of k1 l1 k2 l2 sortAsc] n1(4) n2(4) by simp
    finally show ?thesis by (simp add: n1(3) n2(3))
  qed
qed

lemma mset_mergeLists: "mset (mergeLists sortAsc xs ys) = mset xs + mset ys"
  by (induction sortAsc xs ys rule: mergeLists.induct) auto

lemma set_mergeLists: "set (mergeLists sortAsc xs ys) = set xs \<union> set ys"
  by (induction sortAsc xs ys rule: mergeLists.induct) auto

lemma inOrder_mergeLists:
  "inOrder sortAsc xs \<Longrightarrow> inOrder sortAsc ys \<Longrightarrow> inOrder sortAsc (mergeLists sortAsc xs ys)"
  unfolding inOrder_def
  by (induction sortAsc xs ys rule: mergeLists.induct) (auto simp: set_mergeLists)

lemma mergeTask_lines:
  assumes "\<forall>l\<in>set ls1. isLine l" "\<forall>l\<in>set ls2. isLine l"
  shows "mergeTask sortAsc ([], []) (concat ls1) (concat ls2) =
           (([], []), concat (mergeLists sortAsc ls1 ls2))"
proof -
  have "wfReader [] False ls1" "wfReader [] False ls2"
    using assms by (simp_all add: wfReader_def)
  from mergeLoop_refines [OF this, of sortAsc "[]"] show ?thesis
    by (simp add: mergeTask_def pend_def)
qed

section \<open>Properties of Sort\<close>

lemma updateWidths_fault:
  "k \<le> length ws \<Longrightarrow> length ws < k + length vs \<Longrightarrow>
   updateWidths ws k vs = Inl IndexOutOfRange"
  by (induction vs arbitrary: ws k) auto

lemma updateWidths_Inl: "updateWidths ws k vs = Inl e \<Longrightarrow> e = IndexOutOfRange"
  by (induction vs arbitrary: ws k) (auto split: if_splits)

lemma updateWidths_length: "updateWidths ws k vs = Inr ws' \<Longrightarrow> length ws' = length ws"
  by (induction vs arbitrary: ws k) (auto split: if_splits)

lemma widthsLoop_fault:
  "(off, r) \<in> set (recordsFrom start rd) \<Longrightarrow> length ws < length (Split (Trim r blanks) sep) \<Longrightarrow>
   widthsLoop sep rd False ws = Inl IndexOutOfRange"
proof (induction start rd arbitrary: ws rule: recordsFrom.induct)
  case (1 start rd)
  obtain r0 eof rd' where rs: "readString rd = (r0, eof, rd')"
    by (cases "readString rd") auto
  show ?case
  proof (cases "updateWidths ws 0 (Split (Trim r0 blanks) sep)")
    case (Inl e)
    with rs updateWidths_Inl [OF Inl] show ?thesis
      by (subst widthsLoop.simps) simp
  next
    case (Inr ws')
    have "(off, r) \<noteq> (start, r0)"
      using Inr updateWidths_fault [of 0 ws "Split (Trim r0 blanks) sep"] 1(3) by auto
    with 1(2) rs have ne: "\<not> eof" and mem: "(off, r) \<in> set (recordsFrom (start + int (length r0)) rd')"
      by (auto simp: recordsFrom.simps [of start rd] split: if_splits)
    have "widthsLoop sep rd' False ws' = Inl IndexOutOfRange"
      using 1(1) [OF rs [symmetric] refl ne mem] updateWidths_length [OF Inr] 1(3) by simp
    with rs Inr ne show ?thesis
      by (subst widthsLoop.simps) simp
  qed
qed

text \<open>
  Claim C9: there are inputs on which the width pre-pass faults with an index out of
  range, namely every source in which some record has, once trimmed, more fields than the
  first record has as it is read: the slice of widths has the length of the first
  record's field count. \<open>Sort\<close> then ends in that panic before any file is created.
\<close>

theorem width_prepass_faults:
  assumes "(off, r) \<in> set (sourceRecords src)"
    and "length (Split (fst (readString src)) sep) < length (Split (Trim r blanks) sep)"
  shows "fieldWidths sep src = Inl IndexOutOfRange \<and>
         sortFile tempName src sortAsc usingFields sep keysPerSort =
           \<lparr>failure = Some IndexOutOfRange, tempDirAfter = noTempFiles, outFileAfter = None\<rparr>"
proof -
  have "fieldWidths sep src = Inl IndexOutOfRange"
    using assms widthsLoop_fault [of off r 0 src "replicate (length (Split (fst (readString src)) sep)) 0" sep]
    by (simp add: fieldWidths_def sourceRecords_def split_beta)
  then show ?thesis by (simp add: sortFile_def)
qed

theorem width_prepass_faults_witness:
  "(2, ''b'' @ [CHR 0x09] @ ''c'' @ [CHR 0x0A])
     \<in> set (sourceRecords (''a'' @ [CHR 0x0A] @ ''b'' @ [CHR 0x09] @ ''c'' @ [CHR 0x0A])) \<and>
   length (Split (fst (readString (''a'' @ [CHR 0x0A] @ ''b'' @ [CHR 0x09] @ ''c'' @ [CHR 0x0A])))
             [CHR 0x09])
     < length (Split (Trim (''b'' @ [CHR 0x09] @ ''c'' @ [CHR 0x0A]) blanks) [CHR 0x09]) \<and>
   fieldWidths [CHR 0x09] (''a'' @ [CHR 0x0A] @ ''b'' @ [CHR 0x09] @ ''c'' @ [CHR 0x0A])
     = Inl IndexOutOfRange \<and>
   sortFile (\<lambda>n. digitsOf n) (''a'' @ [CHR 0x0A] @ ''b'' @ [CHR 0x09] @ ''c'' @ [CHR 0x0A])
       True ''1'' [CHR 0x09] 10 =
     \<lparr>failure = Some IndexOutOfRange, tempDirAfter = noTempFiles, outFileAfter = None\<rparr>"
proof -
  have h1: "(2, ''b'' @ [CHR 0x09] @ ''c'' @ [CHR 0x0A])
     \<in> set (sourceRecords (''a'' @ [CHR 0x0A] @ ''b'' @ [CHR 0x09] @ ''c'' @ [CHR 0x0A]))"
    by code_simp
  have h2: "length (Split (fst (readString (''a'' @ [CHR 0x0A] @ ''b'' @ [CHR 0x09] @ ''c'' @ [CHR 0x0A])))
             [CHR 0x09])
     < length (Split (Trim (''b'' @ [CHR 0x09] @ ''c'' @ [CHR 0x0A]) blanks) [CHR 0x09])"
    by code_simp
  from width_prepass_faults [OF h1 h2, of "\<lambda>n. digitsOf n" True "''1''" 10] h1 h2
  show ?thesis by blast
qed

text \<open>
  Claim C6, as the specification states it: \<open>Sort\<close> fails at once when the source path,
  the destination path or the list of field indexes is empty, when the batch size is zero
  or negative, when the source does not exist or when it is empty. It does not for a
  negative batch size: the check is \<open>keysPerSort == 0\<close>, and with the size \<open>-1\<close> the
  source is sorted, all keys in one run.
\<close>

theorem Sort_accepts_negative_batch_size:
  "Sort (\<lambda>n. digitsOf n) [''in'' \<mapsto> ''b'' @ [CHR 0x0A] @ ''a'' @ [CHR 0x0A]] ''in'' ''out'' True ''1''
     [CHR 0x09] (- 1) =
   \<lparr>failure = None, tempDirAfter = \<lparr>keyFiles = [], numCreated = 1\<rparr>,
    outFileAfter = Some (''a'' @ [CHR 0x0A] @ ''b'' @ [CHR 0x0A])\<rparr>"
  by code_simp

text \<open>
  Claim C6, amended: \<open>Sort\<close> halts, before it creates any file, when the source path,
  the destination path or the list of field indexes is empty, when the batch size is
  zero, when the source does not exist or when it is empty.
\<close>

theorem Sort_rejects_missing_arguments:
  assumes "inFile = [] \<or> outFile = [] \<or> usingFields = [] \<or> keysPerSort = 0 \<or>
           fs inFile = None \<or> fs inFile = Some []"
  shows "\<exists>msg. Sort tempName fs inFile outFile sortAsc usingFields sep keysPerSort =
           \<lparr>failure = Some (Halt msg), tempDirAfter = noTempFiles, outFileAfter = None\<rparr>"
  using assms by (auto simp: Sort_def halt_def split: option.splits)

theorem Sort_rejects_missing_arguments_witness:
  "(0::int) = 0 \<and>
   (\<exists>msg. Sort (\<lambda>n. digitsOf n) [''in'' \<mapsto> ''a'' @ [CHR 0x0A]] ''in'' ''out'' True ''1'' [CHR 0x09] 0 =
           \<lparr>failure = Some (Halt msg), tempDirAfter = noTempFiles, outFileAfter = None\<rparr>) \<and>
   (Map.empty :: string \<rightharpoonup> string) ''in'' = None \<and>
   (\<exists>msg. Sort (\<lambda>n. digitsOf n) Map.empty ''in'' ''out'' True ''1'' [CHR 0x09] 10 =
           \<lparr>failure = Some (Halt msg), tempDirAfter = noTempFiles, outFileAfter = None\<rparr>)"
  using Sort_rejects_missing_arguments
          [of "''in''" "''out''" "''1''" 0 "[''in'' \<mapsto> ''a'' @ [CHR 0x0A]]" "\<lambda>n. digitsOf n" True "[CHR 0x09]"]
        Sort_rejects_missing_arguments
          [of "''in''" "''out''" "''1''" 10 "Map.empty" "\<lambda>n. digitsOf n" True "[CHR 0x09]"]
  by simp

text \<open>
  Claim C1, at the input where the code departs from it: a descending sort on the second
  field of two records that agree on it writes the second record first. The offset is
  part of the key, so that the descending order of the keys reverses the ties.
\<close>

theorem descending_sort_reverses_ties:
  "outFileAfter (Sort (\<lambda>n. digitsOf n)
       [''in'' \<mapsto> ''1'' @ [CHR 0x09] @ ''A'' @ [CHR 0x0A] @ ''2'' @ [CHR 0x09] @ ''A'' @ [CHR 0x0A]]
       ''in'' ''out'' False ''2'' [CHR 0x09] 10) =
   Some (''2'' @ [CHR 0x09] @ ''A'' @ [CHR 0x0A] @ ''1'' @ [CHR 0x09] @ ''A'' @ [CHR 0x0A])"
  by code_simp

subsection \<open>The runs on the temporary directory\<close>

lemma isLine_append_newline: "CHR 0x0A \<notin> set k \<Longrightarrow> isLine (k @ [CHR 0x0A])"
  by (simp add: isLine_def)

lemma mergeLists_map_line:
  assumes "consistent K"
  shows "set xs \<subseteq> K \<Longrightarrow> set ys \<subseteq> K \<Longrightarrow>
         mergeLists sortAsc (map (\<lambda>v. v @ [CHR 0x0A]) xs) (map (\<lambda>v. v @ [CHR 0x0A]) ys) =
           map (\<lambda>v. v @ [CHR 0x0A]) (mergeLists sortAsc xs ys)"
proof (induction sortAsc xs ys rule: mergeLists.induct)
  case (3 sortAsc x xs y ys)
  then have "x \<in> K" "y \<in> K" by simp_all
  with assms have c: "(x @ [CHR 0x0A] < y @ [CHR 0x0A]) = (x < y)"
      "(y @ [CHR 0x0A] < x @ [CHR 0x0A]) = (y < x)"
    by (simp_all add: consistent_def)
  show ?case
  proof (cases "if sortAsc then x < y else x > y")
    case True
    with 3 c show ?thesis by (cases sortAsc) simp_all
  next
    case False
    with 3 c show ?thesis by (cases sortAsc) simp_all
  qed
qed simp_all

lemma mergeTask_keyLines:
  assumes "consistent K" "set ks1 \<subseteq> K" "set ks2 \<subseteq> K"
  shows "mergeTask sortAsc ([], []) (keyLines ks1) (keyLines ks2) =
           (([], []), keyLines (mergeLists sortAsc ks1 ks2))"
proof -
  have "\<forall>l\<in>set (map (\<lambda>v. v @ [CHR 0x0A]) ks1). isLine l"
       "\<forall>l\<in>set (map (\<lambda>v. v @ [CHR 0x0A]) ks2). isLine l"
    using assms by (auto simp: consistent_def isLine_append_newline)
  from mergeTask_lines [OF this, of sortAsc] show ?thesis
    by (simp add: keyLines_def mergeLists_map_line [OF assms])
qed

lemma keyRuns_create:
  assumes "keyRuns sortAsc K d KS" "inOrder sortAsc ks" "set ks \<subseteq> K"
  shows "keyRuns sortAsc K (snd (createTempFile tempName (keyLines ks) d)) (KS + {#ks#})"
  using assms by (simp add: keyRuns_def createTempFile_def)

lemma keyRuns_pick:
  assumes "keyRuns sortAsc K d KS" "f \<in># mset (keyFiles d)"
  shows "\<exists>ks. ks \<in># KS \<and> snd f = keyLines ks"
proof -
  from assms(2) have "snd f \<in># image_mset snd (mset (keyFiles d))" by (metis image_eqI in_image_mset)
  with assms(1) have "snd f \<in># image_mset keyLines KS" by (simp add: keyRuns_def)
  then show ?thesis by auto
qed

lemma keyRuns_remove:
  assumes "keyRuns sortAsc K d KS" "f \<in># mset (keyFiles d)" "ks \<in># KS" "snd f = keyLines ks"
  shows "keyRuns sortAsc K (d\<lparr>keyFiles := remove1 f (keyFiles d)\<rparr>) (KS - {#ks#})"
proof -
  have "image_mset snd (mset (remove1 f (keyFiles d))) = image_mset snd (mset (keyFiles d)) - {#snd f#}"
    using assms(2) by (simp add: image_mset_Diff)
  moreover have "image_mset keyLines (KS - {#ks#}) = image_mset keyLines KS - {#keyLines ks#}"
    using assms(3) by (simp add: image_mset_Diff)
  ultimately have "image_mset snd (mset (remove1 f (keyFiles d))) = image_mset keyLines (KS - {#ks#})"
    using assms(1,4) by (simp add: keyRuns_def)
  moreover have "\<forall>ks'\<in>#KS - {#ks#}. inOrder sortAsc ks' \<and> set ks' \<subseteq> K"
    using assms(1) by (meson in_diffD keyRuns_def)
  ultimately show ?thesis by (simp add: keyRuns_def)
qed

lemma runTask_keyRuns:
  assumes "consistent K" "keyRuns sortAsc K d KS" "{#f1, f2#} \<subseteq># mset (keyFiles d)"
  shows "\<exists>KS'. fst (runTask tempName sortAsc f1 f2 (([], []), d)) = ([], []) \<and>
           keyRuns sortAsc K (snd (runTask tempName sortAsc f1 f2 (([], []), d))) KS' \<and>
           allKeys KS' = allKeys KS"
proof -
  have f1: "f1 \<in># mset (keyFiles d)" using assms(3) by (meson insert_subset_eq_iff)
  then obtain ks1 where k1: "ks1 \<in># KS" "snd f1 = keyLines ks1"
    using keyRuns_pick [OF assms(2)] by blast
  let ?d1 = "d\<lparr>keyFiles := remove1 f1 (keyFiles d)\<rparr>"
  have r1: "keyRuns sortAsc K ?d1 (KS - {#ks1#})"
    by (rule keyRuns_remove [OF assms(2) f1 k1])
  have f2: "f2 \<in># mset (keyFiles ?d1)"
    using assms(3) by (simp add: insert_subset_eq_iff)
  then obtain ks2 where k2: "ks2 \<in># KS - {#ks1#}" "snd f2 = keyLines ks2"
    using keyRuns_pick [OF r1] by blast
  let ?d2 = "?d1\<lparr>keyFiles := remove1 f2 (keyFiles ?d1)\<rparr>"
  have r2: "keyRuns sortAsc K ?d2 (KS - {#ks1#} - {#ks2#})"
    by (rule keyRuns_remove [OF r1 f2 k2])
  have sub: "set ks1 \<subseteq> K" "set ks2 \<subseteq> K" "inOrder sortAsc ks1" "inOrder sortAsc ks2"
    using assms(2) k1(1) k2(1) by (auto simp: keyRuns_def dest: in_diffD)
  let ?m = "mergeLists sortAsc ks1 ks2"
  have mt: "mergeTask sortAsc ([], []) (snd f1) (snd f2) = (([], []), keyLines ?m)"
    using mergeTask_keyLines [OF assms(1) sub(1,2)] k1(2) k2(2) by simp
  have rt: "runTask tempName sortAsc f1 f2 (([], []), d) =
              (([], []), snd (createTempFile tempName (keyLines ?m) ?d2))"
    by (simp add: runTask_def mt)
  have "inOrder sortAsc ?m" "set ?m \<subseteq> K"
    using sub by (simp_all add: inOrder_mergeLists set_mergeLists)
  from keyRuns_create [OF r2 this]
  have r3: "keyRuns sortAsc K (snd (createTempFile tempName (keyLines ?m) ?d2))
              (KS - {#ks1#} - {#ks2#} + {#?m#})" .
  define R where "R = KS - {#ks1#}"
  define R2 where "R2 = R - {#ks2#}"
  have a: "KS = add_mset ks1 R" using k1(1) by (simp add: R_def)
  have "ks2 \<in># R" using k2(1) by (simp add: R_def)
  then have b: "R = add_mset ks2 R2" by (simp add: R2_def)
  have "allKeys KS = allKeys R2 + mset ks1 + mset ks2"
    by (simp add: a b allKeys_def add.assoc add.commute)
  moreover have "allKeys (R2 + {#?m#}) = allKeys R2 + mset ks1 + mset ks2"
    by (simp add: allKeys_def mset_mergeLists add.assoc add.commute)
  moreover have "KS - {#ks1#} - {#ks2#} + {#?m#} = R2 + {#?m#}"
    by (simp only: R_def R2_def)
  ultimately show ?thesis using rt r3 by (metis fst_conv snd_conv)
qed


lemma submitPairs_keyRuns:
  assumes "consistent K"
  shows "fst st = ([], []) \<Longrightarrow> keyRuns sortAsc K (snd st) KS \<Longrightarrow>
         mset fs \<subseteq># mset (keyFiles (snd st)) \<Longrightarrow>
         \<exists>KS'. fst (submitPairs tempName sortAsc fs st) = ([], []) \<and>
           keyRuns sortAsc K (snd (submitPairs tempName sortAsc fs st)) KS' \<and>
           allKeys KS' = allKeys KS"
proof (induction tempName sortAsc fs st arbitrary: KS rule: submitPairs.induct)
  case (1 tempName sortAsc f1 f2 fs st)
  let ?st' = "runTask tempName sortAsc f1 f2 st"
  have st: "st = (([], []), snd st)" using 1(2) by (cases st) simp
  from 1(4) have sub: "{#f1, f2#} + mset fs \<subseteq># mset (keyFiles (snd st))"
    by simp
  then have two: "{#f1, f2#} \<subseteq># mset (keyFiles (snd st))"
    using mset_subset_eq_add_left subset_mset.order_trans by blast
  from sub have "mset fs \<subseteq># mset (keyFiles (snd st)) - {#f1, f2#}"
    by (metis add.commute mset_subset_eq_add_left subset_mset.dual_order.trans
        subset_mset.le_diff_conv2)
  then have fs: "mset fs \<subseteq># mset (keyFiles (snd ?st'))"
    using length_runTask(2) [OF two] subset_mset.order_trans by blast
  obtain KS1 where k: "fst ?st' = ([], [])" "keyRuns sortAsc K (snd ?st') KS1"
      "allKeys KS1 = allKeys KS"
    using runTask_keyRuns [OF assms 1(3) two, of tempName] st by metis
  from 1(1) [OF k(1,2) fs] k(3) show ?case by simp
qed auto

lemma mergeRounds_keyRuns:
  assumes "consistent K"
  shows "fst st = ([], []) \<Longrightarrow> keyRuns sortAsc K (snd st) KS \<Longrightarrow>
         \<exists>KS' st'. mergeRounds tempName sortAsc st = (Glob (snd st'), st') \<and>
           length (Glob (snd st')) \<le> 1 \<and>
           keyRuns sortAsc K (snd st') KS' \<and> allKeys KS' = allKeys KS"
proof (induction tempName sortAsc st arbitrary: KS rule: mergeRounds.induct)
  case (1 tempName sortAsc st)
  show ?case
  proof (cases "length (Glob (snd st)) > 1")
    case True
    let ?st' = "submitPairs tempName sortAsc (Glob (snd st)) st"
    have "mset (Glob (snd st)) \<subseteq># mset (keyFiles (snd st))"
      by (simp add: Glob_def)
    from submitPairs_keyRuns [OF assms 1(2,3) this, of tempName]
    obtain KS1 where k: "fst ?st' = ([], [])" "keyRuns sortAsc K (snd ?st') KS1"
        "allKeys KS1 = allKeys KS" by blast
    from 1(1) [OF True k(1,2)] k(3) True show ?thesis
      by (subst mergeRounds.simps) simp
  next
    case False
    then have "mergeRounds tempName sortAsc st = (Glob (snd st), st)"
      by (subst mergeRounds.simps) simp
    moreover have "length (Glob (snd st)) \<le> 1" using False by simp
    ultimately show ?thesis using 1(3) by blast
  qed
qed

lemma inOrder_sortKeys: "inOrder sortAsc (sortKeys sortAsc ks)"
  by (cases sortAsc) (simp_all add: inOrder_def sortKeys_def sorted_wrt_rev)

lemma spillKeys_keyRuns:
  assumes "consistent K" "keyRuns sortAsc K d KS" "set ks \<subseteq> K"
    and "mset fs \<subseteq># mset (keyFiles d)" "length fs \<le> 1"
  shows "\<exists>fs' d' KS'. spillKeys tempName sortAsc ks fs (([], []), d) = (fs', (([], []), d')) \<and>
           keyRuns sortAsc K d' KS' \<and> allKeys KS' = allKeys KS + mset ks \<and>
           mset fs' \<subseteq># mset (keyFiles d') \<and> length fs' \<le> 1"
proof -
  obtain f d1 where c: "createTempFile tempName (keyLines (sortKeys sortAsc ks)) d = (f, d1)"
    by (cases "createTempFile tempName (keyLines (sortKeys sortAsc ks)) d")
  then have d1: "keyFiles d1 = keyFiles d @ [f]"
    by (auto simp: createTempFile_def)
  have "set (sortKeys sortAsc ks) \<subseteq> K" using assms(3) by (simp add: sortKeys_def)
  from keyRuns_create [OF assms(2) inOrder_sortKeys this, of tempName] c
  have r1: "keyRuns sortAsc K d1 (KS + {#sortKeys sortAsc ks#})" by simp
  have a1: "allKeys (KS + {#sortKeys sortAsc ks#}) = allKeys KS + mset ks"
    by (simp add: allKeys_def sortKeys_def)
  show ?thesis
  proof (cases "length (fs @ [f]) = 2")
    case True
    then obtain f0 where fs: "fs = [f0]" by (cases fs) auto
    with assms(4) have "{#f0, f#} \<subseteq># mset (keyFiles d1)"
      by (simp add: d1 insert_subset_eq_iff)
    from runTask_keyRuns [OF assms(1) r1 this, of tempName]
    obtain KS' where k: "fst (runTask tempName sortAsc f0 f (([], []), d1)) = ([], [])"
        "keyRuns sortAsc K (snd (runTask tempName sortAsc f0 f (([], []), d1))) KS'"
        "allKeys KS' = allKeys (KS + {#sortKeys sortAsc ks#})" by blast
    have "runTask tempName sortAsc f0 f (([], []), d1) =
            (([], []), snd (runTask tempName sortAsc f0 f (([], []), d1)))"
      using k(1) by (metis prod.collapse)
    then have "spillKeys tempName sortAsc ks fs (([], []), d) =
            ([], (([], []), snd (runTask tempName sortAsc f0 f (([], []), d1))))"
      unfolding spillKeys_def by (simp only: snd_conv fst_conv c prod.case fs) simp
    with k a1 show ?thesis by auto
  next
    case False
    with assms(5) have fs: "fs = []" by (cases fs) auto
    have "spillKeys tempName sortAsc ks fs (([], []), d) = ([f], (([], []), d1))"
      unfolding spillKeys_def by (simp only: snd_conv fst_conv c prod.case fs) simp
    with r1 a1 d1 show ?thesis by auto
  qed
qed


lemma keyStep_keyRuns:
  assumes "consistent K" "keyRuns sortAsc K d KS" "coroutine st = (([], []), d)"
    and "mset (todo st) \<subseteq># mset (keyFiles d)" "length (todo st) \<le> 1"
    and "if Trim r blanks \<noteq> [] then keyFn (Trim r blanks) (recordStart st) = Inr k \<and> knew = [k]
         else knew = []"
    and "set (keysBuf st @ knew) \<subseteq> K"
  shows "\<exists>st1 d1 KS1. keyStep tempName sortAsc keyFn keysPerSort r eof st = (None, st1) \<and>
           recordStart st1 = recordStart st + int (length r) \<and>
           coroutine st1 = (([], []), d1) \<and> keyRuns sortAsc K d1 KS1 \<and>
           mset (todo st1) \<subseteq># mset (keyFiles d1) \<and> length (todo st1) \<le> 1 \<and>
           set (keysBuf st1) \<subseteq> K \<and>
           allKeys KS1 + mset (keysBuf st1) = allKeys KS + mset (keysBuf st) + mset knew \<and>
           (eof \<longrightarrow> keysBuf st1 = [])"
proof -
  let ?ks = "keysBuf st @ knew"
  have app: "(if length (Trim r blanks) > 0
               then (case keyFn (Trim r blanks) (recordStart st) of
                       Inl e \<Rightarrow> Inl e
                     | Inr key \<Rightarrow> Inr (keysBuf st @ [key]))
               else Inr (keysBuf st)) = Inr ?ks"
    using assms(6) by (auto split: if_splits)
  show ?thesis
  proof (cases "length ?ks > 0 \<and> (int (length ?ks) = keysPerSort \<or> eof)")
    case True
    from spillKeys_keyRuns [OF assms(1,2,7,4,5), of tempName]
    obtain fs' d' KS' where sp:
        "spillKeys tempName sortAsc ?ks (todo st) (([], []), d) = (fs', (([], []), d'))"
        "keyRuns sortAsc K d' KS'" "allKeys KS' = allKeys KS + mset ?ks"
        "mset fs' \<subseteq># mset (keyFiles d')" "length fs' \<le> 1" by blast
    let ?st1 = "\<lparr>recordStart = recordStart st + int (length r), keysBuf = [],
                 todo = fs', coroutine = (([], []), d')\<rparr>"
    have "keyStep tempName sortAsc keyFn keysPerSort r eof st = (None, ?st1)"
      unfolding keyStep_def Let_def
      by (simp only: app sum.case True if_True assms(3) sp(1) prod.case simp_thms)
    moreover have "allKeys KS' + mset (keysBuf ?st1) = allKeys KS + mset (keysBuf st) + mset knew"
      using sp(3) by (simp add: add.assoc)
    ultimately show ?thesis using sp(2,4,5)
      by (intro exI [of _ ?st1] exI [of _ d'] exI [of _ KS']) simp
  next
    case False
    let ?st1 = "st\<lparr>recordStart := recordStart st + int (length r), keysBuf := ?ks\<rparr>"
    have "keyStep tempName sortAsc keyFn keysPerSort r eof st = (None, ?st1)"
      unfolding keyStep_def Let_def
      by (simp only: app sum.case False if_False simp_thms)
    moreover have "eof \<longrightarrow> ?ks = []" using False by auto
    ultimately show ?thesis using assms(2,3,4,5,7)
      by (intro exI [of _ ?st1] exI [of _ d] exI [of _ KS]) (simp add: add.assoc)
  qed
qed

lemma keysLoop_keyRuns:
  assumes "consistent K"
  shows "keyedRecords keyFn (nonBlank (recordsFrom start rd)) = Inr krs \<Longrightarrow>
         fst ` set krs \<subseteq> K \<Longrightarrow> set (keysBuf st) \<subseteq> K \<Longrightarrow> recordStart st = start \<Longrightarrow>
         coroutine st = (([], []), d) \<Longrightarrow> keyRuns sortAsc K d KS \<Longrightarrow>
         mset (todo st) \<subseteq># mset (keyFiles d) \<Longrightarrow> length (todo st) \<le> 1 \<Longrightarrow>
         \<exists>st' d' KS'. keysLoop tempName sortAsc keyFn keysPerSort rd False st = (None, st') \<and>
           coroutine st' = (([], []), d') \<and> keyRuns sortAsc K d' KS' \<and>
           allKeys KS' = allKeys KS + mset (keysBuf st) + mset (map fst krs)"
proof (induction start rd arbitrary: krs st d KS rule: recordsFrom.induct)
  case (1 start rd)
  obtain r eof rd' where rs: "readString rd = (r, eof, rd')"
    by (cases "readString rd") auto
  define tl where "tl = (if eof then [] else recordsFrom (start + int (length r)) rd')"
  have rf: "recordsFrom start rd = (start, r) # tl"
    by (subst recordsFrom.simps) (simp add: rs tl_def)
  obtain k knew krs' where kn:
      "if Trim r blanks \<noteq> [] then keyFn (Trim r blanks) (recordStart st) = Inr k \<and> knew = [k]
       else knew = []"
      "keyedRecords keyFn (nonBlank tl) = Inr krs'"
      "map fst krs = knew @ map fst krs'"
  proof (cases "Trim r blanks \<noteq> []")
    case True
    with 1(2) rf obtain k krs' where "keyFn (Trim r blanks) start = Inr k"
        "keyedRecords keyFn (nonBlank tl) = Inr krs'" "krs = (k, r) # krs'"
      by (auto simp: nonBlank_def split: sum.splits)
    with True 1(5) that [of k "[k]" krs'] show ?thesis by simp
  next
    case False
    with 1(2) rf have "keyedRecords keyFn (nonBlank tl) = Inr krs"
      by (simp add: nonBlank_def)
    with False that [of "[]" "[]" krs] show ?thesis by simp
  qed
  have sub: "set (keysBuf st @ knew) \<subseteq> K" "fst ` set krs' \<subseteq> K"
    using 1(3,4) kn(3) by (auto simp flip: set_map)
  from keyStep_keyRuns [where K = K and st = st and r = r and keyFn = keyFn and k = k
      and knew = knew and d = d and KS = KS and sortAsc = sortAsc and tempName = tempName
      and keysPerSort = keysPerSort and eof = eof, OF assms 1(7,6,8,9) kn(1) sub(1)]
  obtain st1 d1 KS1 where s1:
      "keyStep tempName sortAsc keyFn keysPerSort r eof st = (None, st1)"
      "recordStart st1 = recordStart st + int (length r)"
      "coroutine st1 = (([], []), d1)" "keyRuns sortAsc K d1 KS1"
      "mset (todo st1) \<subseteq># mset (keyFiles d1)" "length (todo st1) \<le> 1"
      "set (keysBuf st1) \<subseteq> K"
      "allKeys KS1 + mset (keysBuf st1) = allKeys KS + mset (keysBuf st) + mset knew"
      "eof \<longrightarrow> keysBuf st1 = []" by blast
  have step: "keysLoop tempName sortAsc keyFn keysPerSort rd False st =
                keysLoop tempName sortAsc keyFn keysPerSort rd' eof st1"
    by (subst keysLoop.simps) (simp add: rs s1(1))
  show ?case
  proof (cases eof)
    case True
    then have "keysLoop tempName sortAsc keyFn keysPerSort rd' eof st1 = (None, st1)"
      by (subst keysLoop.simps) simp
    moreover have "krs' = []" using True kn(2) by (simp add: tl_def nonBlank_def)
    moreover have "keysBuf st1 = []" using True s1(9) by simp
    ultimately show ?thesis using step s1(3,4,8) kn(3) by auto
  next
    case False
    then have tl: "tl = recordsFrom (start + int (length r)) rd'" by (simp add: tl_def)
    have rs1: "recordStart st1 = start + int (length r)" using s1(2) 1(5) by simp
    from 1(1) [OF rs [symmetric] refl False kn(2) [unfolded tl] sub(2) s1(7) rs1 s1(3,4,5,6)]
    obtain st' d' KS' where
        "keysLoop tempName sortAsc keyFn keysPerSort rd' False st1 = (None, st')"
        "coroutine st' = (([], []), d')" "keyRuns sortAsc K d' KS'"
        "allKeys KS' = allKeys KS1 + mset (keysBuf st1) + mset (map fst krs')" by blast
    with step False s1(8) kn(3) show ?thesis
      by (auto simp: add.assoc)
  qed
qed

subsection \<open>The sorted keys and the records they stand for\<close>

lemma splitOn_no_sep: "c \<notin> set xs \<Longrightarrow> splitOn c [] cur xs = [cur @ xs]"
  by (induction xs arbitrary: cur) auto

lemma splitOn_at_sep:
  "c \<notin> set xs \<Longrightarrow> splitOn c [] cur (xs @ c # ys) = (cur @ xs) # splitOn c [] [] ys"
  by (induction xs arbitrary: cur) auto

lemma Split_key:
  "CHR 0x1D \<notin> set F \<Longrightarrow> CHR 0x1D \<notin> set S \<Longrightarrow> Split (F @ CHR 0x1D # S) asciiGS = [F, S]"
  by (simp add: Split_def asciiGS_def splitOn_at_sep splitOn_no_sep)

lemma ParseInt_FormatInt:
  assumes "0 \<le> i" "i < 2 ^ 63"
  shows "ParseInt (FormatInt i) = Some i"
proof -
  have f: "FormatInt i = digitsOf (nat i)" using assms(1) by (simp add: FormatInt_def)
  have "hd (digitsOf (nat i)) \<noteq> CHR ''+''" "hd (digitsOf (nat i)) \<noteq> CHR ''-''"
    using hd_digitsOf_digit [of "nat i"] not_digit by auto
  moreover have "digitsVal (digitsOf (nat i)) = i"
    using assms(1) by (simp add: digitsVal_digitsOf)
  ultimately show ?thesis
    using assms(2) digitsOf_digits [of "nat i"] digitsOf_nonempty [of "nat i"]
    by (simp add: ParseInt_def f Let_def)
qed

lemma materialize_keys:
  assumes "\<forall>(k, r)\<in>set krs. \<exists>F off. k = F @ CHR 0x1D # padLeft w (FormatInt off) \<and>
             CHR 0x1D \<notin> set F \<and> 0 \<le> off \<and> off < 2 ^ 63 \<and>
             fst (readString (drop (nat off) src)) = r"
  shows "materialize src (map fst krs) out = (None, out @ concat (map snd krs))"
  using assms
proof (induction krs arbitrary: out)
  case Nil
  show ?case by simp
next
  case (Cons kr krs)
  obtain k r where kr: "kr = (k, r)" by (cases kr)
  with Cons.prems obtain F off where k: "k = F @ CHR 0x1D # padLeft w (FormatInt off)"
      "CHR 0x1D \<notin> set F" "0 \<le> off" "off < 2 ^ 63"
      "fst (readString (drop (nat off) src)) = r"
    by auto
  have sp: "Split k asciiGS = [F, padLeft w (FormatInt off)]"
    unfolding k(1) by (rule Split_key [OF k(2) GS_notin_padLeft_FormatInt])
  have pi: "ParseInt (TrimLeft (padLeft w (FormatInt off)) [CHR 0x20]) = Some off"
    using ParseInt_FormatInt [OF k(3,4)] by (simp add: TrimLeft_padLeft_FormatInt)
  have "materialize src (map fst (kr # krs)) out = materialize src (map fst krs) (out @ r)"
    using k(3,5) by (simp add: kr sp pi split_beta)
  also have "\<dots> = (None, (out @ r) @ concat (map snd krs))"
    using Cons.prems by (intro Cons.IH) simp
  finally show ?case by (simp add: kr)
qed

lemma keyLines_Cons: "keyLines (k # ks) = k @ CHR 0x0A # keyLines ks"
  by (simp add: keyLines_def)

lemma scanTokens_keyLines:
  assumes "\<forall>k\<in>set ks. CHR 0x0A \<notin> set k \<and> int (length k) \<le> 65535 \<and> k \<noteq> [] \<and> last k \<noteq> CHR 0x0D"
  shows "scanTokens (keyLines ks) = ks"
  using assms
proof (induction ks)
  case Nil
  show ?case by (subst scanTokens.simps) (simp add: keyLines_def)
next
  case (Cons k ks)
  then have k: "CHR 0x0A \<notin> set k" "int (length k) \<le> 65535" "k \<noteq> []" "last k \<noteq> CHR 0x0D"
    by simp_all
  have "readString ((k @ [CHR 0x0A]) @ keyLines ks) = (k @ [CHR 0x0A], False, keyLines ks)"
    by (rule readString_line) (simp add: isLine_def k(1))
  then have rs: "readString (keyLines (k # ks)) = (k @ [CHR 0x0A], False, keyLines ks)"
    by (simp add: keyLines_Cons)
  have "scanTokens (keyLines (k # ks)) = k # scanTokens (keyLines ks)"
    using k by (subst scanTokens.simps) (simp add: rs dropCR_def, simp add: keyLines_Cons)
  with Cons show ?case by simp
qed

lemma mset_map_reorder:
  "mset (map f xs) = mset ys \<Longrightarrow> \<exists>zs. mset zs = mset xs \<and> map f zs = ys"
proof (induction ys arbitrary: xs)
  case Nil
  then show ?case by simp
next
  case (Cons y ys)
  have "y \<in> set (y # ys)" by simp
  then have "y \<in> set (map f xs)"
    using Cons.prems by (metis set_mset_mset)
  then obtain x where x: "x \<in> set xs" "f x = y" by auto
  define R where "R = remove1 x xs"
  have "mset xs = add_mset x (mset R)" using x(1) by (simp add: R_def)
  then have "image_mset f (mset xs) = add_mset (f x) (image_mset f (mset R))"
    by (simp only: image_mset_add_mset)
  then have "add_mset y (mset (map f R)) = add_mset y (mset ys)"
    using Cons.prems x(2) by (simp only: mset_map mset.simps)
  then have "mset (map f R) = mset ys" by (simp only: add_mset_add_mset_same_iff)
  from Cons.IH [OF this] obtain zs where zs: "mset zs = mset R" "map f zs = ys"
    by blast
  have a: "mset (x # zs) = mset xs" using zs(1) x(1) by (simp add: R_def)
  have b: "map f (x # zs) = y # ys" using zs(2) x(2) by simp
  show ?case by (rule exI [of _ "x # zs"]) (rule conjI [OF a b])
qed

lemma readString_newline:
  "readString rd = (r, e, rest) \<Longrightarrow> CHR 0x0A \<notin> set (butlast r)"
  by (induction rd arbitrary: r e rest) (auto split: if_splits prod.splits)

lemma recordsFrom_facts:
  "(off, r) \<in> set (recordsFrom start rd) \<Longrightarrow>
   start \<le> off \<and> off \<le> start + int (length rd) \<and>
   fst (readString (drop (nat (off - start)) rd)) = r \<and> set r \<subseteq> set rd \<and>
   CHR 0x0A \<notin> set (butlast r)"
proof (induction start rd rule: recordsFrom.induct)
  case (1 start rd)
  obtain r0 eof rd' where rs: "readString rd = (r0, eof, rd')"
    by (cases "readString rd") auto
  from readString_parts [OF rs] have parts: "r0 @ rd' = rd" by simp
  show ?case
  proof (cases "(off, r) = (start, r0)")
    case True
    with rs parts readString_newline [OF rs] show ?thesis by auto
  next
    case False
    with 1(2) rs have ne: "\<not> eof"
      and mem: "(off, r) \<in> set (recordsFrom (start + int (length r0)) rd')"
      by (auto simp: recordsFrom.simps [of start rd] split: if_splits)
    from 1(1) [OF rs [symmetric] refl ne mem]
    have ih: "start + int (length r0) \<le> off" "off \<le> start + int (length r0) + int (length rd')"
        "fst (readString (drop (nat (off - (start + int (length r0)))) rd')) = r"
        "set r \<subseteq> set rd'" "CHR 0x0A \<notin> set (butlast r)" by simp_all
    have "nat (off - start) = length r0 + nat (off - (start + int (length r0)))"
      using ih(1) by simp
    then have "drop (nat (off - start)) rd = drop (nat (off - (start + int (length r0)))) rd'"
      using parts by (metis append_eq_conv_conj drop_drop add.commute)
    with ih parts show ?thesis by auto
  qed
qed

lemma set_Trim: "set (Trim s cs) \<subseteq> set s"
  unfolding Trim_def TrimLeft_def
  by (metis set_dropWhileD set_rev subsetI)

lemma Trim_no_newline:
  assumes "CHR 0x0A \<notin> set (butlast r)"
  shows "CHR 0x0A \<notin> set (Trim r blanks)"
proof (cases "CHR 0x0A \<in> set r")
  case False
  with set_Trim [of r blanks] show ?thesis by blast
next
  case True
  with assms obtain x where r: "r = x @ [CHR 0x0A]" "CHR 0x0A \<notin> set x"
    by (metis append_butlast_last_id butlast.simps(1) in_set_butlastD in_set_butlast_appendI
        list.set_intros(1) set_ConsD snoc_eq_iff_butlast empty_iff empty_set rotate1.simps(2) set_rotate1)
  let ?P = "\<lambda>c. c \<in> set blanks"
  have P: "?P (CHR 0x0A)" by (simp add: blanks_def)
  have "set (dropWhile ?P (rev (dropWhile ?P r))) \<subseteq> set x"
  proof (cases "\<forall>c\<in>set x. ?P c")
    case True
    then have "dropWhile ?P r = []" using P by (simp add: r(1))
    then have "dropWhile ?P (rev (dropWhile ?P r)) = []" by (simp only: rev.simps dropWhile.simps)
    then show ?thesis by (simp only: set_simps empty_subsetI)
  next
    case False
    then have "dropWhile ?P r = dropWhile ?P x @ [CHR 0x0A]"
      unfolding r(1) by (metis dropWhile_append1)
    then have "dropWhile ?P (rev (dropWhile ?P r)) = dropWhile ?P (rev (dropWhile ?P x))"
      using P by simp
    then show ?thesis
      by (metis set_dropWhileD set_rev subsetI)
  qed
  with r(2) show ?thesis by (auto simp: Trim_def TrimLeft_def)
qed

subsection \<open>The composite keys of a source\<close>

lemma set_splitOn:
  "f \<in> set (splitOn s0 srest cur xs) \<Longrightarrow> set f \<subseteq> set cur \<union> set xs"
proof (induction s0 srest cur xs rule: splitOn.induct)
  case (1 s0 srest cur)
  then show ?case by simp
next
  case (2 s0 srest cur c cs)
  show ?case
  proof (cases "prefix (s0 # srest) (c # cs)")
    case True
    with 2(3) have "f = cur \<or> f \<in> set (splitOn s0 srest [] (drop (length srest) cs))"
      by (auto split: if_splits)
    then show ?thesis
    proof
      assume "f = cur" then show ?thesis by auto
    next
      assume "f \<in> set (splitOn s0 srest [] (drop (length srest) cs))"
      from 2(1) [OF True this] have "set f \<subseteq> set (drop (length srest) cs)" by simp
      then show ?thesis using set_drop_subset [of "length srest" cs] by auto
    qed
  next
    case False
    with 2(3) have "f \<in> set (splitOn s0 srest (cur @ [c]) cs)" by (auto split: if_splits)
    from 2(2) [OF False this] show ?thesis by auto
  qed
qed

lemma set_explode: "f \<in> set (explode s) \<Longrightarrow> set f \<subseteq> set s"
proof (induction s rule: explode.induct)
  case (1 s)
  show ?case
  proof (cases "s = []")
    case True
    with 1(2) show ?thesis by (simp add: explode.simps)
  next
    case False
    with 1(2) have "f = take (runeSize s) s \<or> f \<in> set (explode (drop (runeSize s) s))"
      by (subst (asm) explode.simps) simp
    then show ?thesis
    proof
      assume "f = take (runeSize s) s"
      then show ?thesis using set_take_subset by fast
    next
      assume "f \<in> set (explode (drop (runeSize s) s))"
      from 1(1) [OF False this] show ?thesis using set_drop_subset by fast
    qed
  qed
qed

lemma set_Split: "f \<in> set (Split s sep) \<Longrightarrow> set f \<subseteq> set s"
  using set_splitOn set_explode by (fastforce simp: Split_def split: list.splits)

lemma set_padLeft: "set (padLeft w s) \<subseteq> insert (CHR 0x20) (set s)"
  by (auto simp: padLeft_def)

lemma set_keyFields:
  "keyFields specs flds key = Inr F \<Longrightarrow>
   set F \<subseteq> insert (CHR 0x20) (set key \<union> \<Union> (set ` set flds))"
proof (induction specs arbitrary: key)
  case Nil
  then show ?case by auto
next
  case (Cons v vs)
  then have inr: "0 \<le> COLIDX v" "COLIDX v < int (length flds)"
    and rec: "keyFields vs flds (key @ padLeft (FORMAT v) (flds ! nat (COLIDX v))) = Inr F"
    by (auto split: if_splits)
  have "flds ! nat (COLIDX v) \<in> set flds" using inr by simp
  then have "set (padLeft (FORMAT v) (flds ! nat (COLIDX v)))
               \<subseteq> insert (CHR 0x20) (\<Union> (set ` set flds))"
    using set_padLeft [of "FORMAT v" "flds ! nat (COLIDX v)"] by blast
  with Cons.IH [OF rec] show ?case by auto
qed

lemma explode_ascii:
  "\<forall>c\<in>set s. (of_char c :: nat) < 128 \<Longrightarrow> explode s = map (\<lambda>c. [c]) s"
proof (induction s)
  case Nil
  show ?case by (simp add: explode.simps)
next
  case (Cons c cs)
  then have "utf8Lead (of_char c) = None" by (simp add: utf8Lead_def)
  then have "runeSize (c # cs) = 1" by (simp add: runeSize_def)
  with Cons show ?case by (subst explode.simps) simp
qed

lemma isDigit_ascii: "isDigit c \<Longrightarrow> (of_char c :: nat) < 128"
  by (simp add: isDigit_def)

lemma length_digitsOf_mono: "m \<le> n \<Longrightarrow> length (digitsOf m) \<le> length (digitsOf n)"
proof (induction n arbitrary: m rule: digitsOf.induct)
  case (1 n)
  show ?case
  proof (cases "n < 10")
    case True
    with 1(2) show ?thesis by (simp add: digitsOf.simps [of m] digitsOf.simps [of n])
  next
    case False
    show ?thesis
    proof (cases "m < 10")
      case True
      with False show ?thesis
        using digitsOf_nonempty [of "n div 10"]
        by (cases "digitsOf (n div 10)") (simp_all add: digitsOf.simps [of m] digitsOf.simps [of n])
    next
      case m: False
      have "m div 10 \<le> n div 10" using 1(2) by (rule div_le_mono)
      from 1(1) [OF False this] m False show ?thesis
        by (simp add: digitsOf.simps [of m] digitsOf.simps [of n])
    qed
  qed
qed

lemma length_padLeft_offset:
  assumes "0 \<le> off" "off \<le> int n"
  shows "length (padLeft (length (FormatInt (int n))) (FormatInt off)) = length (FormatInt (int n))"
proof -
  have f: "FormatInt off = digitsOf (nat off)" "FormatInt (int n) = digitsOf n"
    using assms(1) by (simp_all add: FormatInt_def)
  have "\<forall>c\<in>set (digitsOf (nat off)). (of_char c :: nat) < 128"
    using digitsOf_digits [of "nat off"] isDigit_ascii by (auto simp: list_all_iff)
  then have "RuneCountInString (digitsOf (nat off)) = length (digitsOf (nat off))"
    by (simp add: RuneCountInString_def explode_ascii)
  moreover have "length (digitsOf (nat off)) \<le> length (digitsOf n)"
    using assms by (intro length_digitsOf_mono) simp
  ultimately show ?thesis by (simp add: padLeft_def f)
qed

lemma padLeft_FormatInt_chars:
  assumes "0 \<le> off"
  shows "CHR 0x0A \<notin> set (padLeft w (FormatInt off))"
    and "padLeft w (FormatInt off) \<noteq> []"
    and "last (padLeft w (FormatInt off)) \<noteq> CHR 0x0D"
proof -
  have f: "FormatInt off = digitsOf (nat off)" using assms by (simp add: FormatInt_def)
  have d: "\<forall>c\<in>set (digitsOf (nat off)). isDigit c"
    using digitsOf_digits [of "nat off"] by (simp add: list_all_iff)
  then show "CHR 0x0A \<notin> set (padLeft w (FormatInt off))"
    using not_digit by (auto simp: padLeft_def f)
  show "padLeft w (FormatInt off) \<noteq> []"
    by (simp add: padLeft_def f digitsOf_nonempty)
  have "last (padLeft w (FormatInt off)) = last (digitsOf (nat off))"
    by (simp add: padLeft_def f digitsOf_nonempty)
  moreover have "isDigit (last (digitsOf (nat off)))"
    using d digitsOf_nonempty [of "nat off"] last_in_set by blast
  ultimately show "last (padLeft w (FormatInt off)) \<noteq> CHR 0x0D"
    using not_digit by auto
qed

lemma lex_append_cancel:
  "\<not> prefix a b \<Longrightarrow> \<not> prefix b a \<Longrightarrow> (a @ x < b @ y) = (a < (b :: 'a :: linorder list))"
proof (induction a arbitrary: b)
  case Nil
  then show ?case by simp
next
  case (Cons c a)
  show ?case
  proof (cases b)
    case Nil
    with Cons.prems show ?thesis by simp
  next
    case (Cons d b')
    with Cons.prems Cons.IH [of b'] show ?thesis by auto
  qed
qed

lemma goodKey_prefix:
  assumes "goodKey w a" "goodKey w b" "prefix a b"
  shows "a = b"
proof -
  from assms(1) obtain F1 S1 where a: "a = F1 @ CHR 0x1D # S1" "CHR 0x1D \<notin> set F1" "length S1 = w"
    by (auto simp: goodKey_def)
  from assms(2) obtain F2 S2 where b: "b = F2 @ CHR 0x1D # S2" "CHR 0x1D \<notin> set F2" "length S2 = w"
    by (auto simp: goodKey_def)
  from assms(3) obtain z where z: "b = a @ z" by (auto simp: prefix_def)
  have "takeWhile (\<lambda>c. c \<noteq> CHR 0x1D) b = F2"
    unfolding b(1) using b(2) by (auto simp: takeWhile_tail)
  moreover have "takeWhile (\<lambda>c. c \<noteq> CHR 0x1D) b = F1"
    unfolding z a(1) using a(2) by (auto simp: takeWhile_tail)
  ultimately have F: "F1 = F2" by simp
  with z a(1) b(1) have "S2 = S1 @ z" by simp
  with a(3) b(3) have "z = []" by (metis append_self_conv length_append add_cancel_right_right length_0_conv)
  with z show ?thesis by simp
qed

lemma goodKeys_consistent:
  assumes "\<forall>k\<in>K. goodKey w k"
  shows "consistent K"
  unfolding consistent_def
proof (intro conjI ballI)
  fix a assume "a \<in> K"
  with assms show "CHR 0x0A \<notin> set a" by (auto simp: goodKey_def)
next
  fix a b assume ab: "a \<in> K" "b \<in> K"
  show "(a @ [CHR 0x0A] < b @ [CHR 0x0A]) = (a < b)"
  proof (cases "a = b")
    case True
    then show ?thesis by simp
  next
    case False
    then have "\<not> prefix a b" "\<not> prefix b a"
      using goodKey_prefix assms ab by metis+
    then show ?thesis by (rule lex_append_cancel)
  qed
qed

subsection \<open>The pairwise merger on keys\<close>





subsection \<open>The whole sort\<close>

lemma keyedRecords_facts:
  "keyedRecords keyFn recs = Inr krs \<Longrightarrow>
   map snd krs = map snd recs \<and>
   (\<forall>(k, r)\<in>set krs. \<exists>off. (off, r) \<in> set recs \<and> keyFn (Trim r blanks) off = Inr k)"
proof (induction recs arbitrary: krs)
  case Nil
  then show ?case by simp
next
  case (Cons a recs)
  obtain off r where a: "a = (off, r)" by (cases a)
  with Cons.prems obtain k krs' where k: "keyFn (Trim r blanks) off = Inr k"
      "keyedRecords keyFn recs = Inr krs'" "krs = (k, r) # krs'"
    by (auto split: sum.splits)
  from Cons.IH [OF k(2)] k(1,3) a show ?case by fastforce
qed

lemma source_key_facts:
  assumes "keyedRecords (makeCompositeKeyFn sep specs (length (FormatInt (int (length src)))))
             (nonBlank (sourceRecords src)) = Inr krs"
    and "CHR 0x1D \<notin> set src" and "(k, r) \<in> set krs"
  shows "\<exists>F off. k = F @ CHR 0x1D # padLeft (length (FormatInt (int (length src)))) (FormatInt off) \<and>
           CHR 0x1D \<notin> set F \<and> CHR 0x0A \<notin> set F \<and> 0 \<le> off \<and> off \<le> int (length src) \<and>
           fst (readString (drop (nat off) src)) = r"
proof -
  let ?w = "length (FormatInt (int (length src)))"
  from keyedRecords_facts [OF assms(1)] assms(3)
  obtain off where off: "(off, r) \<in> set (nonBlank (sourceRecords src))"
      "makeCompositeKeyFn sep specs ?w (Trim r blanks) off = Inr k" by blast
  then have "(off, r) \<in> set (recordsFrom 0 src)"
    by (simp add: nonBlank_def sourceRecords_def)
  from recordsFrom_facts [OF this]
  have rf: "0 \<le> off" "off \<le> int (length src)" "fst (readString (drop (nat off) src)) = r"
      "set r \<subseteq> set src" "CHR 0x0A \<notin> set (butlast r)" by simp_all
  from makeCompositeKeyFn_Inr [OF off(2)]
  obtain F where F: "keyFields specs (Split (Trim r blanks) sep) [] = Inr F"
      "k = F @ CHR 0x1D # padLeft ?w (FormatInt off)" by blast
  have "\<Union> (set ` set (Split (Trim r blanks) sep)) \<subseteq> set (Trim r blanks)"
    using set_Split by blast
  with set_keyFields [OF F(1)] have sF: "set F \<subseteq> insert (CHR 0x20) (set (Trim r blanks))"
    by auto
  have "CHR 0x1D \<notin> set (Trim r blanks)"
    using set_Trim [of r blanks] rf(4) assms(2) by blast
  with sF have g: "CHR 0x1D \<notin> set F" by auto
  have "CHR 0x0A \<notin> set (Trim r blanks)" by (rule Trim_no_newline [OF rf(5)])
  with sF have n: "CHR 0x0A \<notin> set F" by auto
  from F(2) g n rf(1,2,3) show ?thesis by blast
qed

lemma single_run:
  assumes "keyRuns sortAsc K d KS" "length (Glob d) \<le> 1" "allKeys KS \<noteq> {#}"
  shows "\<exists>f ks. Glob d = [f] \<and> keyFiles d = [f] \<and> snd f = keyLines ks \<and> inOrder sortAsc ks \<and>
           mset ks = allKeys KS"
proof -
  have len: "length (keyFiles d) \<le> 1" using assms(2) by (simp add: Glob_def)
  have "KS \<noteq> {#}" using assms(3) by (auto simp: allKeys_def)
  then have "image_mset snd (mset (keyFiles d)) \<noteq> {#}"
    using assms(1) by (simp add: keyRuns_def)
  then have "keyFiles d \<noteq> []" by auto
  with len obtain f where f: "keyFiles d = [f]"
    by (cases "keyFiles d") (auto simp: Suc_le_eq)
  then have g: "Glob d = [f]" by (simp add: Glob_def)
  from assms(1) f have "image_mset keyLines KS = {#snd f#}" by (simp add: keyRuns_def)
  then obtain ks where ks: "KS = {#ks#}" "keyLines ks = snd f"
    by (metis (no_types, lifting) image_mset_single msed_map_invR image_mset_is_empty_iff
        add_mset_eq_single)
  with assms(1) have "inOrder sortAsc ks" by (simp add: keyRuns_def)
  moreover have "allKeys KS = mset ks" by (simp add: ks(1) allKeys_def)
  ultimately show ?thesis using f g ks(2)
    by (intro exI [of _ f] exI [of _ ks]) simp
qed

lemma sortFile_result:
  assumes "fieldWidths sep src = Inr widths"
    and "keySpecsLoop widths (Split usingFields '','') [] = Inr specs"
    and "keyedRecords (makeCompositeKeyFn sep specs (length (FormatInt (int (length src)))))
           (nonBlank (sourceRecords src)) = Inr krs"
    and "krs \<noteq> []"
    and "CHR 0x1D \<notin> set src"
    and "int (length src) < 2 ^ 63"
    and "\<forall>(k, r)\<in>set krs. int (length k) \<le> 65535"
  shows "\<exists>ordered d. sortFile tempName src sortAsc usingFields sep keysPerSort =
             \<lparr>failure = None, tempDirAfter = d, outFileAfter = Some (concat (map snd ordered))\<rparr> \<and>
           mset ordered = mset krs \<and> inOrder sortAsc (map fst ordered)"
proof -
  let ?w = "length (FormatInt (int (length src)))"
  let ?keyFn = "makeCompositeKeyFn sep specs ?w"
  let ?K = "fst ` set krs"
  let ?st0 = "\<lparr>recordStart = 0, keysBuf = [], todo = [], coroutine = (([], []), noTempFiles)\<rparr>"
  have facts: "\<And>k r. (k, r) \<in> set krs \<Longrightarrow>
      \<exists>F off. k = F @ CHR 0x1D # padLeft ?w (FormatInt off) \<and>
           CHR 0x1D \<notin> set F \<and> CHR 0x0A \<notin> set F \<and> 0 \<le> off \<and> off \<le> int (length src) \<and>
           fst (readString (drop (nat off) src)) = r"
    by (rule source_key_facts [OF assms(3,5)])
  have good: "\<forall>k\<in>?K. goodKey ?w k"
  proof
    fix k assume "k \<in> ?K"
    then obtain r where "(k, r) \<in> set krs" by auto
    from facts [OF this] obtain F off where
        "k = F @ CHR 0x1D # padLeft ?w (FormatInt off)" "CHR 0x1D \<notin> set F" "CHR 0x0A \<notin> set F"
        "0 \<le> off" "off \<le> int (length src)" by blast
    then show "goodKey ?w k"
      unfolding goodKey_def
      using length_padLeft_offset [of off "length src"] padLeft_FormatInt_chars(1) [of off ?w]
      by blast
  qed
  then have cons: "consistent ?K" by (rule goodKeys_consistent)
  have r0: "keyRuns sortAsc ?K noTempFiles {#}"
    by (simp add: keyRuns_def noTempFiles_def)
  have "\<exists>st' d' KS'. keysLoop tempName sortAsc ?keyFn keysPerSort src False ?st0 = (None, st') \<and>
           coroutine st' = (([], []), d') \<and> keyRuns sortAsc ?K d' KS' \<and>
           allKeys KS' = allKeys {#} + mset (keysBuf ?st0) + mset (map fst krs)"
    by (rule keysLoop_keyRuns [OF cons assms(3) [unfolded sourceRecords_def] _ _ _ _ r0])
       (simp_all add: noTempFiles_def)
  then obtain st' d' KS' where kl:
      "keysLoop tempName sortAsc ?keyFn keysPerSort src False ?st0 = (None, st')"
      "coroutine st' = (([], []), d')" "keyRuns sortAsc ?K d' KS'"
      "allKeys KS' = mset (map fst krs)"
    by (auto simp: allKeys_def)
  from mergeRounds_keyRuns [OF cons, of "coroutine st'" sortAsc KS' tempName] kl(2,3)
  obtain KS2 st2 where mr: "mergeRounds tempName sortAsc (coroutine st') = (Glob (snd st2), st2)"
      "length (Glob (snd st2)) \<le> 1" "keyRuns sortAsc ?K (snd st2) KS2" "allKeys KS2 = allKeys KS'"
    by auto
  have "allKeys KS2 \<noteq> {#}" using mr(4) kl(4) assms(4) by simp
  from single_run [OF mr(3,2) this]
  obtain f ks where one: "Glob (snd st2) = [f]" "snd f = keyLines ks" "inOrder sortAsc ks"
      "mset ks = allKeys KS2" by blast
  have mk: "mset (map fst krs) = mset ks" using one(4) mr(4) kl(4) by simp
  from mset_map_reorder [OF this]
  obtain ordered where ord: "mset ordered = mset krs" "map fst ordered = ks" by blast
  then have so: "set ordered = set krs" by (metis set_mset_mset)
  have "\<forall>k\<in>set ks. CHR 0x0A \<notin> set k \<and> int (length k) \<le> 65535 \<and> k \<noteq> [] \<and> last k \<noteq> CHR 0x0D"
  proof
    fix k assume "k \<in> set ks"
    then have "k \<in> ?K" using mk by (metis set_mset_mset set_map)
    then obtain r where kr: "(k, r) \<in> set krs" by auto
    from facts [OF kr] obtain F off where k:
        "k = F @ CHR 0x1D # padLeft ?w (FormatInt off)" "CHR 0x0A \<notin> set F" "0 \<le> off" by blast
    from kr assms(7) have "int (length k) \<le> 65535" by auto
    then show "CHR 0x0A \<notin> set k \<and> int (length k) \<le> 65535 \<and> k \<noteq> [] \<and> last k \<noteq> CHR 0x0D"
      using k(2) padLeft_FormatInt_chars [OF k(3), of ?w] by (simp add: k(1))
  qed
  then have sc: "scanTokens (snd f) = map fst ordered"
    by (simp add: one(2) ord(2) scanTokens_keyLines)
  have "\<forall>(k, r)\<in>set ordered. \<exists>F off. k = F @ CHR 0x1D # padLeft ?w (FormatInt off) \<and>
             CHR 0x1D \<notin> set F \<and> 0 \<le> off \<and> off < 2 ^ 63 \<and>
             fst (readString (drop (nat off) src)) = r"
  proof (clarify)
    fix k r assume "(k, r) \<in> set ordered"
    then have "(k, r) \<in> set krs" by (simp add: so)
    from facts [OF this] obtain F off where
        "k = F @ CHR 0x1D # padLeft ?w (FormatInt off)" "CHR 0x1D \<notin> set F" "0 \<le> off"
        "off \<le> int (length src)" "fst (readString (drop (nat off) src)) = r" by blast
    moreover from this assms(6) have "off < 2 ^ 63" by linarith
    ultimately show "\<exists>F off. k = F @ CHR 0x1D # padLeft ?w (FormatInt off) \<and>
             CHR 0x1D \<notin> set F \<and> 0 \<le> off \<and> off < 2 ^ 63 \<and>
             fst (readString (drop (nat off) src)) = r" by blast
  qed
  from materialize_keys [OF this, of "[]"]
  have mat: "materialize src (scanTokens (snd f)) [] = (None, concat (map snd ordered))"
    by (simp add: sc)
  obtain mk2 d2 where st2: "st2 = (mk2, d2)" by (cases st2)
  have g2: "Glob d2 = [f]" using one(1) st2 by simp
  have mr2: "mergeRounds tempName sortAsc (coroutine st') = ([f], mk2, d2)"
    using mr(1) st2 g2 by simp
  have "sortFile tempName src sortAsc usingFields sep keysPerSort =
          \<lparr>failure = None, tempDirAfter = d2\<lparr>keyFiles := remove1 f (keyFiles d2)\<rparr>,
           outFileAfter = Some (concat (map snd ordered))\<rparr>"
    unfolding sortFile_def
    by (simp only: assms(1,2) sum.case kl(1) prod.case option.case mr2 list.case mat)
  with ord(1) one(3) ord(2) show ?thesis by blast
qed

lemma sourceKeys_empty: "sourceKeys [] usingFields sep = Inr krs \<Longrightarrow> krs = []"
  by (auto simp: sourceKeys_def sourceRecords_def recordsFrom.simps nonBlank_def Trim_def
        TrimLeft_def split: sum.splits)

lemma sourceKeys_records:
  "sourceKeys src usingFields sep = Inr krs \<Longrightarrow> map snd krs = map snd (nonBlank (sourceRecords src))"
  by (auto simp: sourceKeys_def split: sum.splits dest: keyedRecords_facts)

lemma Sort_result:
  assumes "inFile \<noteq> []" "outFile \<noteq> []" "usingFields \<noteq> []" "keysPerSort \<noteq> 0"
    and "fs inFile = Some src"
    and "sourceKeys src usingFields sep = Inr krs" "krs \<noteq> []"
    and "CHR 0x1D \<notin> set src" "int (length src) < 2 ^ 63"
    and "\<forall>(k, r)\<in>set krs. int (length k) \<le> 65535"
  shows "\<exists>ordered d. Sort tempName fs inFile outFile sortAsc usingFields sep keysPerSort =
             \<lparr>failure = None, tempDirAfter = d, outFileAfter = Some (concat (map snd ordered))\<rparr> \<and>
           mset ordered = mset krs \<and> inOrder sortAsc (map fst ordered)"
proof -
  have ne: "src \<noteq> []" using sourceKeys_empty assms(6,7) by blast
  from assms(6) obtain widths specs where w: "fieldWidths sep src = Inr widths"
      "keySpecsLoop widths (Split usingFields '','') [] = Inr specs"
      "keyedRecords (makeCompositeKeyFn sep specs (length (FormatInt (int (length src)))))
         (nonBlank (sourceRecords src)) = Inr krs"
    by (auto simp: sourceKeys_def split: sum.splits)
  have "Sort tempName fs inFile outFile sortAsc usingFields sep keysPerSort =
          sortFile tempName src sortAsc usingFields sep keysPerSort"
    using assms(1-5) ne by (simp add: Sort_def)
  with sortFile_result [OF w assms(7-10), where tempName = tempName and sortAsc = sortAsc
      and keysPerSort = keysPerSort]
  show ?thesis by simp
qed

lemma scenario_hyps:
  "sourceKeys scenarioSource ''2,1'' [CHR 0x09] = Inr scenarioKeys"
  "scenarioKeys \<noteq> []"
  "CHR 0x1D \<notin> set scenarioSource"
  "int (length scenarioSource) < 2 ^ 63"
  "\<forall>(k, r)\<in>set scenarioKeys. int (length k) \<le> 65535"
  by code_simp+

lemma readString_with_newline:
  "CHR 0x0A \<in> set xs \<Longrightarrow> isLine (fst (readString xs))"
  by (induction xs) (auto simp: isLine_def split: prod.splits)

lemma readString_without_newline:
  "CHR 0x0A \<notin> set xs \<Longrightarrow> fst (readString xs) = xs"
  by (induction xs) (auto split: prod.splits)

text \<open>
  The theorems on the output of \<open>Sort\<close> are about valid inputs: the paths and the field
  list are given, the batch size is not zero, the destination is another file than the
  source, the source exists, the pre-pass, the key specs and the key encoder succeed
  (\<open>sourceKeys\<close>) and give at least one key, the source holds no group separator, its
  size fits an int64, and no key is longer than a token of the scanner.
\<close>

text \<open>
  Claim C2, as the specification states it: the output holds exactly the records of the
  source, with the same line count, no record dropped. It fails where the source has a
  blank record: of the three lines \<open>a\<close>, an empty line and \<open>b\<close> the output has two.
\<close>

theorem blank_record_dropped:
  "outFileAfter (Sort (\<lambda>n. digitsOf n)
       [''in'' \<mapsto> ''a'' @ [CHR 0x0A] @ [CHR 0x0A] @ ''b'' @ [CHR 0x0A]]
       ''in'' ''out'' True ''1'' [CHR 0x09] 10) =
     Some (''a'' @ [CHR 0x0A] @ ''b'' @ [CHR 0x0A]) \<and>
   count_list (''a'' @ [CHR 0x0A] @ [CHR 0x0A] @ ''b'' @ [CHR 0x0A]) (CHR 0x0A) = 3 \<and>
   count_list (''a'' @ [CHR 0x0A] @ ''b'' @ [CHR 0x0A]) (CHR 0x0A) = 2"
  by code_simp

lemma terminated_records:
  assumes "src \<noteq> []" "last src = CHR 0x0A" "(off, r) \<in> set (recordsFrom start src)"
  shows "r = [] \<or> isLine r"
proof -
  from recordsFrom_facts [OF assms(3)]
  have r: "fst (readString (drop (nat (off - start)) src)) = r" by simp
  show ?thesis
  proof (cases "drop (nat (off - start)) src = []")
    case True
    with r show ?thesis by simp
  next
    case False
    then have "last (drop (nat (off - start)) src) = CHR 0x0A" using assms(2) by simp
    with False have "CHR 0x0A \<in> set (drop (nat (off - start)) src)" by (metis last_in_set)
    from readString_with_newline [OF this] r show ?thesis by simp
  qed
qed

lemma recordsFrom_lines:
  "\<forall>r\<in>set recs. isLine r \<Longrightarrow> map snd (recordsFrom start (concat recs)) = recs @ [[]]"
proof (induction recs arbitrary: start)
  case Nil
  show ?case by (simp add: recordsFrom.simps [of start "[]"])
next
  case (Cons r recs)
  then have "readString (concat (r # recs)) = (r, False, concat recs)"
    by (simp add: readString_line)
  with Cons show ?case
    by (simp add: recordsFrom.simps [of start "r @ concat recs"])
qed

lemma Trim_empty: "Trim [] blanks = []"
  by (simp add: Trim_def TrimLeft_def)

lemma scenario_terminated: "last scenarioSource = CHR 0x0A"
  by code_simp

text \<open>
  Claim C2, amended: for every valid input whose source ends with a newline and has at
  least one record that is not blank (not empty once spaces, carriage returns and newlines
  are trimmed), and whose composite keys are no longer than 65535 bytes, the limit of a
  token of the scanner that reads the final key file, \<open>Sort\<close> ends without failure and
  the output file holds exactly the records of the source that are not blank: it is a
  sequence \<open>recs\<close> of whole lines, which are the records read back from it up to its
  end, and \<open>recs\<close> has each non-blank record of the source byte for byte and exactly as
  often as the source, merely reordered. So the line count of the output is the number of
  non-blank records of the source; blank records are left out. A valid input is one in
  which the paths and the field list are given, the batch size is not zero, the source
  exists and is another file than the destination, the pre-pass, the key specs and the key
  encoder succeed, the source holds no group separator and its size fits an int64.
\<close>

theorem output_is_permutation_of_nonblank_records:
  assumes "inFile \<noteq> []" "outFile \<noteq> []" "inFile \<noteq> outFile" "usingFields \<noteq> []"
    and "keysPerSort \<noteq> 0" and "fs inFile = Some src"
    and "last src = CHR 0x0A"
    and "sourceKeys src usingFields sep = Inr krs" and "krs \<noteq> []"
    and "CHR 0x1D \<notin> set src" and "int (length src) < 2 ^ 63"
    and "\<forall>(k, r)\<in>set krs. int (length k) \<le> 65535"
  shows "\<exists>recs. failure (Sort tempName fs inFile outFile sortAsc usingFields sep keysPerSort) = None \<and>
           outFileAfter (Sort tempName fs inFile outFile sortAsc usingFields sep keysPerSort)
             = Some (concat recs) \<and>
           mset recs = mset (map snd (nonBlank (sourceRecords src))) \<and>
           (\<forall>r\<in>set recs. isLine r) \<and>
           map snd (sourceRecords (concat recs)) = recs @ [[]] \<and>
           length recs = length (nonBlank (sourceRecords src))"
proof -
  from Sort_result [where fs = fs and inFile = inFile and tempName = tempName
      and sortAsc = sortAsc, OF assms(1,2,4-6,8-12)]
  obtain ordered d where o:
      "Sort tempName fs inFile outFile sortAsc usingFields sep keysPerSort =
         \<lparr>failure = None, tempDirAfter = d, outFileAfter = Some (concat (map snd ordered))\<rparr>"
      "mset ordered = mset krs" by blast
  let ?recs = "map snd ordered"
  have "mset ?recs = mset (map snd krs)"
    using o(2) by (metis mset_map)
  then have m: "mset ?recs = mset (map snd (nonBlank (sourceRecords src)))"
    using sourceKeys_records [OF assms(8)] by simp
  have ne: "src \<noteq> []" using sourceKeys_empty assms(8,9) by blast
  have l: "\<forall>r\<in>set ?recs. isLine r"
  proof
    fix r assume "r \<in> set ?recs"
    then have "r \<in> set (map snd (nonBlank (sourceRecords src)))"
      using m by (metis set_mset_mset)
    then obtain off where off: "(off, r) \<in> set (recordsFrom 0 src)" "Trim r blanks \<noteq> []"
      by (auto simp: nonBlank_def sourceRecords_def)
    from off(2) have "r \<noteq> []" using Trim_empty by auto
    with terminated_records [OF ne assms(7) off(1)] show "isLine r" by simp
  qed
  then have rd: "map snd (sourceRecords (concat ?recs)) = ?recs @ [[]]"
    unfolding sourceRecords_def by (rule recordsFrom_lines)
  have len: "length ?recs = length (nonBlank (sourceRecords src))"
    using m by (metis size_mset length_map)
  show ?thesis
    apply (rule exI [of _ ?recs])
    apply (simp only: o(1) outcome.simps)
    apply (intro conjI refl m l rd len)
    done
qed

theorem output_is_permutation_of_nonblank_records_witness:
  "sourceKeys scenarioSource ''2,1'' [CHR 0x09] = Inr scenarioKeys \<and>
   last scenarioSource = CHR 0x0A \<and>
   (\<exists>recs. failure (Sort (\<lambda>n. digitsOf n) [''in'' \<mapsto> scenarioSource] ''in'' ''out'' True ''2,1''
                      [CHR 0x09] 2) = None \<and>
           outFileAfter (Sort (\<lambda>n. digitsOf n) [''in'' \<mapsto> scenarioSource] ''in'' ''out'' True
                           ''2,1'' [CHR 0x09] 2) = Some (concat recs) \<and>
           mset recs = mset (map snd (nonBlank (sourceRecords scenarioSource))) \<and>
           (\<forall>r\<in>set recs. isLine r) \<and>
           map snd (sourceRecords (concat recs)) = recs @ [[]] \<and>
           length recs = length (nonBlank (sourceRecords scenarioSource)))"
proof -
  have a: "''in'' \<noteq> []" "''out'' \<noteq> []" "''in'' \<noteq> ''out''" "''2,1'' \<noteq> []" "(2::int) \<noteq> 0"
    "[''in'' \<mapsto> scenarioSource] ''in'' = Some scenarioSource"
    by simp_all
  from output_is_permutation_of_nonblank_records
         [where fs = "[''in'' \<mapsto> scenarioSource]" and inFile = "''in''"
            and tempName = "\<lambda>n. digitsOf n" and sortAsc = True,
          OF a scenario_terminated scenario_hyps]
       scenario_hyps(1) scenario_terminated
  show ?thesis by (intro conjI)
qed



text \<open>
  Claim C10: the materializer writes, for each key, the record that is read at the key's
  offset, as it is read and with nothing added. So where the source ends with a newline,
  every record written from inside the source ends with a newline; and a record that has
  no newline up to the end of the source is written without one, whatever follows it in
  the output.
\<close>

theorem materializer_copies_records_verbatim:
  assumes "\<forall>(k, off)\<in>set kos. \<exists>F. k = F @ asciiGS @ padLeft w (FormatInt off) \<and>
             CHR 0x1D \<notin> set F \<and> 0 \<le> off \<and> off < 2 ^ 63"
  shows "materialize src (map fst kos) [] =
           (None, concat (map (\<lambda>(k, off). fst (readString (drop (nat off) src))) kos)) \<and>
         (src \<noteq> [] \<and> last src = CHR 0x0A \<longrightarrow>
            (\<forall>(k, off)\<in>set kos. nat off < length src \<longrightarrow>
               isLine (fst (readString (drop (nat off) src))))) \<and>
         (\<forall>(k, off)\<in>set kos. CHR 0x0A \<notin> set (drop (nat off) src) \<longrightarrow>
            fst (readString (drop (nat off) src)) = drop (nat off) src)"
proof (intro conjI)
  let ?krs = "map (\<lambda>(k, off). (k, fst (readString (drop (nat off) src)))) kos"
  have "\<forall>(k, r)\<in>set ?krs. \<exists>F off. k = F @ CHR 0x1D # padLeft w (FormatInt off) \<and>
             CHR 0x1D \<notin> set F \<and> 0 \<le> off \<and> off < 2 ^ 63 \<and>
             fst (readString (drop (nat off) src)) = r"
    using assms by (fastforce simp: asciiGS_def)
  from materialize_keys [OF this, of "[]"]
  show "materialize src (map fst kos) [] =
           (None, concat (map (\<lambda>(k, off). fst (readString (drop (nat off) src))) kos))"
    by (simp add: comp_def case_prod_unfold)
next
  show "src \<noteq> [] \<and> last src = CHR 0x0A \<longrightarrow>
            (\<forall>(k, off)\<in>set kos. nat off < length src \<longrightarrow>
               isLine (fst (readString (drop (nat off) src))))"
  proof (intro impI, clarify)
    fix k off assume s: "src \<noteq> []" "last src = CHR 0x0A" and n: "nat off < length src"
    then have "drop (nat off) src \<noteq> []" "last (drop (nat off) src) = CHR 0x0A" by simp_all
    then have "CHR 0x0A \<in> set (drop (nat off) src)" by (metis last_in_set)
    then show "isLine (fst (readString (drop (nat off) src)))"
      by (rule readString_with_newline)
  qed
next
  show "\<forall>(k, off)\<in>set kos. CHR 0x0A \<notin> set (drop (nat off) src) \<longrightarrow>
            fst (readString (drop (nat off) src)) = drop (nat off) src"
    by (auto simp: readString_without_newline)
qed

theorem materializer_copies_records_verbatim_witness:
  "materialize (''b'' @ [CHR 0x0A] @ ''a'')
     [''a'' @ [CHR 0x1D] @ ''2'', ''b'' @ [CHR 0x1D] @ ''0''] [] = (None, ''ab'' @ [CHR 0x0A]) \<and>
   outFileAfter (Sort (\<lambda>n. digitsOf n) [''in'' \<mapsto> ''b'' @ [CHR 0x0A] @ ''a''] ''in'' ''out'' True
                   ''1'' [CHR 0x09] 10) = Some (''ab'' @ [CHR 0x0A])"
proof -
  have h: "\<forall>(k, off)\<in>set [(''a'' @ [CHR 0x1D] @ ''2'', 2), (''b'' @ [CHR 0x1D] @ ''0'', 0)].
             \<exists>F. k = F @ asciiGS @ padLeft 1 (FormatInt off) \<and>
             CHR 0x1D \<notin> set F \<and> 0 \<le> off \<and> off < 2 ^ 63"
  proof -
    have "padLeft 1 (FormatInt 2) = ''2''" "padLeft 1 (FormatInt 0) = ''0''" by code_simp+
    then show ?thesis by (simp add: asciiGS_def)
  qed
  have r: "fst (readString (drop (nat 2) (''b'' @ [CHR 0x0A] @ ''a''))) = ''a''"
      "fst (readString (drop (nat 0) (''b'' @ [CHR 0x0A] @ ''a''))) = ''b'' @ [CHR 0x0A]"
    by simp_all
  have s: "outFileAfter (Sort (\<lambda>n. digitsOf n) [''in'' \<mapsto> ''b'' @ [CHR 0x0A] @ ''a''] ''in'' ''out''
                   True ''1'' [CHR 0x09] 10) = Some (''ab'' @ [CHR 0x0A])"
    by code_simp
  from materializer_copies_records_verbatim [OF h, of "''b'' @ [CHR 0x0A] @ ''a''"] r s
  show ?thesis by simp
qed

end
